theory Spec2Isabelle
  imports Main "HOL-Library.Char_ord" "HOL-Library.List_Lexorder"
begin

section \<open>Regular expressions as the script uses them\<close>

text \<open>
  The script \<^verbatim>\<open>main.py\<close> does all of its parsing with Python's \<^verbatim>\<open>re\<close> module.
  A Python \<^verbatim>\<open>str\<close> is a sequence of code points; here a character is a \<^typ>\<open>char\<close>,
  read as the code point 0..255, so a \<^typ>\<open>string\<close> stands for a Python string whose code
  points are all below 256. The character classes below are \<^verbatim>\<open>re\<close>'s classes for
  \<^verbatim>\<open>str\<close> patterns on that range.
\<close>

definition NL :: char where
  "NL = CHR 0x0A"

text \<open>\<^verbatim>\<open>\d\<close>: a decimal digit; below code point 256 these are \<^verbatim>\<open>0\<close>..\<^verbatim>\<open>9\<close>.\<close>

definition is_digit :: "char \<Rightarrow> bool" where
  "is_digit c = (let n = (of_char c :: nat) in 48 \<le> n \<and> n \<le> 57)"

text \<open>
  \<^verbatim>\<open>\w\<close>: an alphanumeric character or the underscore. Below code point 256 the
  alphanumeric characters are the ASCII letters and digits and the Latin-1 letters and
  numerics (0xAA, 0xB2, 0xB3, 0xB5, 0xB9, 0xBA, 0xBC..0xBE, 0xC0..0xD6, 0xD8..0xF6, 0xF8..0xFF).
\<close>

definition is_word :: "char \<Rightarrow> bool" where
  "is_word c = (let n = (of_char c :: nat) in
      (48 \<le> n \<and> n \<le> 57) \<or> (65 \<le> n \<and> n \<le> 90) \<or> n = 95 \<or> (97 \<le> n \<and> n \<le> 122)
      \<or> n = 170 \<or> n = 178 \<or> n = 179 \<or> n = 181 \<or> n = 185 \<or> n = 186
      \<or> (188 \<le> n \<and> n \<le> 190) \<or> (192 \<le> n \<and> n \<le> 214)
      \<or> (216 \<le> n \<and> n \<le> 246) \<or> (248 \<le> n \<and> n \<le> 255))"

text \<open>
  A single-character item of a pattern: \<^verbatim>\<open>\d\<close>, \<^verbatim>\<open>\w\<close>, the dot (any character
  but the newline, as no flag is given), and a negated one-character set such as
  \<^verbatim>\<open>[^\]]\<close> (which does match the newline).
\<close>

datatype cls = Digit | Word | Dot | Not char

fun cls_ok :: "cls \<Rightarrow> char \<Rightarrow> bool" where
  "cls_ok Digit c = is_digit c"
| "cls_ok Word c = is_word c"
| "cls_ok Dot c = (c \<noteq> NL)"
| "cls_ok (Not x) c = (c \<noteq> x)"

text \<open>
  The patterns of the script use only: literal text, single-character classes, greedy
  bounded or unbounded repetition of a single-character class (\<^verbatim>\<open>{m,n}\<close>, \<^verbatim>\<open>{n}\<close>,
  \<^verbatim>\<open>+\<close>, \<^verbatim>\<open>*\<close>), concatenation, alternation and capturing groups. \<open>Rep c lo None\<close> is
  unbounded above.
\<close>

datatype rx =
    Eps
  | Str string
  | One cls
  | Rep cls nat "nat option"
  | Cat rx rx
  | Alt rx rx
  | Group string rx

type_synonym groups = "(string \<times> string) list"

text \<open>How many characters a greedy repetition of class \<open>c\<close> with upper bound \<open>hi\<close> can take.\<close>

fun rep_max :: "cls \<Rightarrow> nat option \<Rightarrow> string \<Rightarrow> nat" where
  "rep_max c None s = length (takeWhile (cls_ok c) s)"
| "rep_max c (Some hi) s = min hi (length (takeWhile (cls_ok c) s))"

text \<open>
  \<open>run r (g, s)\<close> is the backtracking search of \<^verbatim>\<open>re\<close> as a list of successes: every way
  \<open>r\<close> can match a prefix of \<open>s\<close>, in the order in which the search tries them (a greedy
  repetition tries the longest first, an alternation its left branch first), each with the
  groups captured so far and the text left after the match. A group that matches records
  the text it consumed in front of the list, so \<open>map_of\<close> reads its latest capture.
\<close>

fun run :: "rx \<Rightarrow> groups \<times> string \<Rightarrow> (groups \<times> string) list" where
  "run Eps st = [st]"
| "run (Str w) (g, s) = (if take (length w) s = w then [(g, drop (length w) s)] else [])"
| "run (One c) (g, s) = (case s of [] \<Rightarrow> [] | x # xs \<Rightarrow> if cls_ok c x then [(g, xs)] else [])"
| "run (Rep c lo hi) (g, s) = map (\<lambda>k. (g, drop k s)) (rev [lo ..< Suc (rep_max c hi s)])"
| "run (Cat a b) st = concat (map (run b) (run a st))"
| "run (Alt a b) st = run a st @ run b st"
| "run (Group n r) (g, s) =
     map (\<lambda>(g', s'). ((n, take (length s - length s') s) # g', s')) (run r (g, s))"

fun seq :: "rx list \<Rightarrow> rx" where
  "seq [] = Eps"
| "seq (r # rs) = Cat r (seq rs)"

text \<open>\<^verbatim>\<open>pattern.match(s)\<close>: the first success at position 0; the groups of the match.\<close>

definition match :: "rx \<Rightarrow> string \<Rightarrow> groups option" where
  "match r s = (case run r ([], s) of [] \<Rightarrow> None | (g, s') # _ \<Rightarrow> Some g)"

text \<open>\<^verbatim>\<open>pattern.fullmatch(s)\<close>: the first success that leaves nothing over.\<close>

definition fullmatch :: "rx \<Rightarrow> string \<Rightarrow> groups option" where
  "fullmatch r s = (case filter (\<lambda>(g, s'). s' = []) (run r ([], s)) of
       [] \<Rightarrow> None | (g, s') # _ \<Rightarrow> Some g)"

text \<open>\<^verbatim>\<open>m.group(name)\<close> for a group that took part in the match.\<close>

definition group :: "groups \<Rightarrow> string \<Rightarrow> string" where
  "group g n = (case map_of g n of Some t \<Rightarrow> t | None \<Rightarrow> [])"


text \<open>
  \<^verbatim>\<open>pattern.findall(s)\<close> for a pattern with exactly one group, here named \<open>''1''\<close>: scan from
  the left; at each position take the first success, keep the group's text and go on after
  the match; where nothing matches, move one character on. (After an empty match the scan
  also moves one character on; the entry pattern never matches the empty string.)
\<close>

function findall :: "rx \<Rightarrow> string \<Rightarrow> string list" where
  "findall r s = (case run r ([], s) of
       (g, s') # _ \<Rightarrow>
          group g ''1'' # (if length s' < length s then findall r s'
                           else (case s of [] \<Rightarrow> [] | _ # t \<Rightarrow> findall r t))
     | [] \<Rightarrow> (case s of [] \<Rightarrow> [] | _ # t \<Rightarrow> findall r t))"
  by pat_completeness auto
termination
  by (relation "measure (\<lambda>(r, s). length s)") auto

declare findall.simps [simp del]

section \<open>The patterns of \<^verbatim>\<open>main.py\<close>\<close>

text \<open>\<^verbatim>\<open>(?P<date>\d{4}\-\d{2}-\d{2})-\d+\.log\.gz\<close>\<close>

definition LOG_FILENAME_FORMAT :: rx where
  "LOG_FILENAME_FORMAT = seq
     [Group ''date'' (seq [Rep Digit 4 (Some 4), Str ''-'', Rep Digit 2 (Some 2), Str ''-'',
                           Rep Digit 2 (Some 2)]),
      Str ''-'', Rep Digit 1 None, Str ''.log.gz'']"

text \<open>\<^verbatim>\<open>\[\d{2}:\d{2}:\d{2}\] \<close>, the marker that begins an entry (with its space).\<close>

definition MARKER :: "rx list" where
  "MARKER = [Str ''['', Rep Digit 2 (Some 2), Str '':'', Rep Digit 2 (Some 2), Str '':'',
             Rep Digit 2 (Some 2), Str ''] '']"

text \<open>\<^verbatim>\<open>\n(\[\d{2}:\d{2}:\d{2}\] .*)\<close>\<close>

definition LOG_ENTRY_FORMAT :: rx where
  "LOG_ENTRY_FORMAT = seq [Str [NL], Group ''1'' (seq (MARKER @ [Rep Dot 0 None]))]"

text \<open>
  The five entry patterns begin alike:
  \<^verbatim>\<open>\[(?P<time>\d{2}:\d{2}:\d{2})\] \[Server thread\/INFO\] \[net.minecraft.server.dedicated.DedicatedServer\]: \<close>
  where the dots of the logger name are not escaped, so each stands for any character but
  the newline.
\<close>

definition HEAD :: "rx list" where
  "HEAD =
     [Str ''['',
      Group ''time'' (seq [Rep Digit 2 (Some 2), Str '':'', Rep Digit 2 (Some 2), Str '':'',
                           Rep Digit 2 (Some 2)]),
      Str ''] [Server thread/INFO] [net'', One Dot, Str ''minecraft'', One Dot, Str ''server'',
      One Dot, Str ''dedicated'', One Dot, Str ''DedicatedServer]: '']"

text \<open>\<^verbatim>\<open>(?P<player>\w{1,16})\<close>\<close>

definition PLAYER :: rx where
  "PLAYER = Group ''player'' (Rep Word 1 (Some 16))"

definition JOIN_FORMAT :: rx where
  "JOIN_FORMAT = seq (HEAD @ [PLAYER, Str '' joined the game''])"

definition LEAVE_FORMAT :: rx where
  "LEAVE_FORMAT = seq (HEAD @ [PLAYER, Str '' left the game''])"

text \<open>
  \<^verbatim>\<open>... (?P<player>\w{1,16}) has (?P<type>made the advancement|completed the challenge|reached the goal) \[(?P<advancement>[^\]]+)\]\<close>
\<close>

definition ADVANCEMENT_FORMAT :: rx where
  "ADVANCEMENT_FORMAT = seq (HEAD @
     [PLAYER, Str '' has '',
      Group ''type'' (Alt (Str ''made the advancement'')
                      (Alt (Str ''completed the challenge'') (Str ''reached the goal''))),
      Str '' ['', Group ''advancement'' (Rep (Not (CHR '']'')) 1 None), Str '']''])"

text \<open>\<^verbatim>\<open>... (?P<player>\w{1,16}) (?P<cause>.*)\<close>\<close>

definition DEATH_FORMAT :: rx where
  "DEATH_FORMAT = seq (HEAD @ [PLAYER, Str '' '', Group ''cause'' (Rep Dot 0 None)])"

text \<open>\<^verbatim>\<open>... <(?P<player>\w{1,16})> (?P<message>.*)\<close>\<close>

definition MESSAGE_FORMAT :: rx where
  "MESSAGE_FORMAT = seq (HEAD @ [Str ''<'', PLAYER, Str ''> '', Group ''message'' (Rep Dot 0 None)])"

definition NOT_PLAYERS :: "string list" where
  "NOT_PLAYERS = [''Starting'', ''Loading'', ''Default'', ''Generating'', ''Preparing'', ''Done'',
     ''Successfully'', ''Saved'', ''Stopping'', ''There'', ''Added'', ''You'', ''Unknown'',
     ''Config'', ''Use'']"

section \<open>Dates, times and events\<close>

datatype error = ValueError | TypeError | AttributeError | OSError

datatype date = Date nat nat nat

datatype time = Time nat nat nat

datatype datetime = Datetime date time

definition digit_val :: "char \<Rightarrow> nat" where
  "digit_val c = of_char c - 48"

definition to_nat :: "string \<Rightarrow> nat" where
  "to_nat s = foldl (\<lambda>n c. 10 * n + digit_val c) 0 s"

definition is_leap :: "nat \<Rightarrow> bool" where
  "is_leap y = (y mod 4 = 0 \<and> (y mod 100 \<noteq> 0 \<or> y mod 400 = 0))"

definition days_in_month :: "nat \<Rightarrow> nat \<Rightarrow> nat" where
  "days_in_month y m =
     (if m = 2 then (if is_leap y then 29 else 28)
      else if m = 4 \<or> m = 6 \<or> m = 9 \<or> m = 11 then 30 else 31)"

text \<open>
  \<^verbatim>\<open>date.fromisoformat\<close> on the one shape the filename pattern hands it, \<^verbatim>\<open>dddd-dd-dd\<close>: the
  year is 1..9999, the month 1..12, the day 1..the days of that month; anything else raises
  \<^verbatim>\<open>ValueError\<close>. (Other shapes never reach it from this script and are given the error.)
\<close>

fun date_fromisoformat :: "string \<Rightarrow> error + date" where
  "date_fromisoformat [y1, y2, y3, y4, s1, m1, m2, s2, d1, d2] =
     (if list_all is_digit [y1, y2, y3, y4, m1, m2, d1, d2] \<and> s1 = CHR ''-'' \<and> s2 = CHR ''-''
      then (let y = to_nat [y1, y2, y3, y4]; m = to_nat [m1, m2]; d = to_nat [d1, d2] in
            if 1 \<le> y \<and> 1 \<le> m \<and> m \<le> 12 \<and> 1 \<le> d \<and> d \<le> days_in_month y m
            then Inr (Date y m d) else Inl ValueError)
      else Inl ValueError)"
| "date_fromisoformat _ = Inl ValueError"

text \<open>
  \<^verbatim>\<open>time.fromisoformat\<close> on the one shape the entry patterns hand it, \<^verbatim>\<open>dd:dd:dd\<close>: the hour
  is 0..23, the minute and the second 0..59; anything else raises \<^verbatim>\<open>ValueError\<close>.
\<close>

fun time_fromisoformat :: "string \<Rightarrow> error + time" where
  "time_fromisoformat [h1, h2, s1, m1, m2, s2, c1, c2] =
     (if list_all is_digit [h1, h2, m1, m2, c1, c2] \<and> s1 = CHR '':'' \<and> s2 = CHR '':''
      then (let h = to_nat [h1, h2]; m = to_nat [m1, m2]; c = to_nat [c1, c2] in
            if h \<le> 23 \<and> m \<le> 59 \<and> c \<le> 59 then Inr (Time h m c) else Inl ValueError)
      else Inl ValueError)"
| "time_fromisoformat _ = Inl ValueError"

definition datetime_combine :: "date \<Rightarrow> time \<Rightarrow> datetime" where
  "datetime_combine d t = Datetime d t"

text \<open>The four named tuples; each has three fields, the first of them \<^verbatim>\<open>time\<close>.\<close>

datatype event =
    PlayerJoinLeave datetime string string
  | PlayerAdvancement datetime string string
  | PlayerDeath datetime string string
  | PlayerMessage datetime string string

section \<open>Classifying one entry\<close>

text \<open>
  The body of the inner loop of \<^verbatim>\<open>main\<close> for one entry: the patterns are tried in the order
  join, leave, advancement, death, message. The result is the exception raised (\<open>Inl\<close>), or
  the event appended to the stream, if any (\<open>Inr\<close>). The timestamp of an event is built
  first, so an invalid time raises before anything is appended.
\<close>

definition stamp :: "date \<Rightarrow> groups \<Rightarrow> error + datetime" where
  "stamp log_date m = (case time_fromisoformat (group m ''time'') of
       Inl e \<Rightarrow> Inl e | Inr t \<Rightarrow> Inr (datetime_combine log_date t))"

definition classify :: "date \<Rightarrow> string \<Rightarrow> error + event option" where
  "classify log_date entry =
    (case match JOIN_FORMAT entry of
       Some join_entry \<Rightarrow>
         (case stamp log_date join_entry of Inl e \<Rightarrow> Inl e
          | Inr t \<Rightarrow> Inr (Some (PlayerJoinLeave t (group join_entry ''player'') ''join'')))
     | None \<Rightarrow>
    (case match LEAVE_FORMAT entry of
       Some leave_entry \<Rightarrow>
         (case stamp log_date leave_entry of Inl e \<Rightarrow> Inl e
          | Inr t \<Rightarrow> Inr (Some (PlayerJoinLeave t (group leave_entry ''player'') ''leave'')))
     | None \<Rightarrow>
    (case match ADVANCEMENT_FORMAT entry of
       Some adv_entry \<Rightarrow>
         (case stamp log_date adv_entry of Inl e \<Rightarrow> Inl e
          | Inr t \<Rightarrow> Inr (Some (PlayerAdvancement t (group adv_entry ''player'')
                                   (group adv_entry ''advancement''))))
     | None \<Rightarrow>
    (case match DEATH_FORMAT entry of
       Some death_entry \<Rightarrow>
         (let player = group death_entry ''player'' in
          if player \<in> set NOT_PLAYERS then Inr None
          else (case stamp log_date death_entry of Inl e \<Rightarrow> Inl e
                | Inr t \<Rightarrow> Inr (Some (PlayerDeath t player (group death_entry ''cause'')))))
     | None \<Rightarrow>
    (case match MESSAGE_FORMAT entry of
       Some message_entry \<Rightarrow>
         (case stamp log_date message_entry of Inl e \<Rightarrow> Inl e
          | Inr t \<Rightarrow> Inr (Some (PlayerMessage t (group message_entry ''player'')
                                   (group message_entry ''message''))))
     | None \<Rightarrow> Inr None)))))"

text \<open>
  The inner loop over the entries of one file: the stream so far, extended; an exception
  stops the loop, with the stream as it then is.
\<close>

fun collect :: "date \<Rightarrow> string list \<Rightarrow> event list \<Rightarrow> error option \<times> event list" where
  "collect log_date [] event_stream = (None, event_stream)"
| "collect log_date (entry # entries) event_stream =
     (case classify log_date entry of
        Inl e \<Rightarrow> (Some e, event_stream)
      | Inr None \<Rightarrow> collect log_date entries event_stream
      | Inr (Some ev) \<Rightarrow> collect log_date entries (event_stream @ [ev]))"


section \<open>Writing the tables\<close>

text \<open>
  \<^verbatim>\<open>str\<close> of a \<^verbatim>\<open>datetime\<close> without microseconds:
  \<^verbatim>\<open>YYYY-MM-DD HH:MM:SS\<close>, each number padded with zeros.
\<close>

definition digit_char :: "nat \<Rightarrow> char" where
  "digit_char n = char_of (48 + n mod 10)"

definition pad2 :: "nat \<Rightarrow> string" where
  "pad2 n = [digit_char (n div 10), digit_char n]"

definition pad4 :: "nat \<Rightarrow> string" where
  "pad4 n = [digit_char (n div 1000), digit_char (n div 100), digit_char (n div 10), digit_char n]"

fun str_datetime :: "datetime \<Rightarrow> string" where
  "str_datetime (Datetime (Date y m d) (Time h mi c)) =
     pad4 y @ ''-'' @ pad2 m @ ''-'' @ pad2 d @ '' '' @ pad2 h @ '':'' @ pad2 mi @ '':'' @ pad2 c"

text \<open>
  \<^verbatim>\<open>csv.writer\<close> with its default dialect: fields separated by commas, a field quoted
  only if it holds a comma, a double quote, a carriage return or a newline, a double quote
  inside a quoted field doubled, a row ended by carriage return and newline; a row that is
  one empty field is written as two double quotes.
\<close>

definition special :: "char \<Rightarrow> bool" where
  "special c = (c = CHR '','' \<or> c = CHR 0x22 \<or> c = CHR 0x0D \<or> c = CHR 0x0A)"

definition csv_field :: "string \<Rightarrow> string" where
  "csv_field f =
     (if list_ex special f
      then [CHR 0x22] @ concat (map (\<lambda>c. if c = CHR 0x22 then [c, c] else [c]) f) @ [CHR 0x22]
      else f)"

fun join_fields :: "string list \<Rightarrow> string" where
  "join_fields [] = []"
| "join_fields [f] = f"
| "join_fields (f # fs) = f @ '','' @ join_fields fs"

definition csv_row :: "string list \<Rightarrow> string" where
  "csv_row fs = (if fs = [[]] then [CHR 0x22, CHR 0x22] else join_fields (map csv_field fs))
                 @ [CHR 0x0D, CHR 0x0A]"

text \<open>The class of a named tuple, its \<^verbatim>\<open>_fields\<close>, and the tuple as a row of strings.\<close>

datatype entry_type = PlayerJoinLeave_t | PlayerAdvancement_t | PlayerDeath_t | PlayerMessage_t

fun type_of :: "event \<Rightarrow> entry_type" where
  "type_of (PlayerJoinLeave t p x) = PlayerJoinLeave_t"
| "type_of (PlayerAdvancement t p x) = PlayerAdvancement_t"
| "type_of (PlayerDeath t p x) = PlayerDeath_t"
| "type_of (PlayerMessage t p x) = PlayerMessage_t"

fun fields_of :: "entry_type \<Rightarrow> string list" where
  "fields_of PlayerJoinLeave_t = [''time'', ''player'', ''type'']"
| "fields_of PlayerAdvancement_t = [''time'', ''player'', ''advancement'']"
| "fields_of PlayerDeath_t = [''time'', ''player'', ''cause'']"
| "fields_of PlayerMessage_t = [''time'', ''player'', ''message'']"

fun row :: "event \<Rightarrow> string list" where
  "row (PlayerJoinLeave t p x) = [str_datetime t, p, x]"
| "row (PlayerAdvancement t p x) = [str_datetime t, p, x]"
| "row (PlayerDeath t p x) = [str_datetime t, p, x]"
| "row (PlayerMessage t p x) = [str_datetime t, p, x]"

definition CSV_FILES :: "(string \<times> entry_type) list" where
  "CSV_FILES = [(''joins_leaves.csv'', PlayerJoinLeave_t), (''advancements.csv'', PlayerAdvancement_t),
                (''deaths.csv'', PlayerDeath_t), (''messages.csv'', PlayerMessage_t)]"

text \<open>
  What the script writes to: whether the directory \<^verbatim>\<open>output\<close> exists, and the text of each
  file by its path. Writing is taken to succeed (the directory can be made and the files
  opened), and text is written as it is, as on POSIX.
\<close>

record fs =
  output_dir :: bool
  files :: "string \<rightharpoonup> string"

text \<open>
  One pass of the loop over \<^verbatim>\<open>CSV_FILES\<close>: the file is opened with mode \<^verbatim>\<open>w\<close>, so what
  it held is gone; the header row, then the rows of the events of this class, in order.
\<close>

definition write_csv :: "event list \<Rightarrow> string \<times> entry_type \<Rightarrow> fs \<Rightarrow> fs" where
  "write_csv event_stream fe st = (case fe of (filename, entry_type) \<Rightarrow>
     st\<lparr>files := (files st)(''output/'' @ filename \<mapsto>
        csv_row (fields_of entry_type)
        @ concat (map (\<lambda>r. csv_row (row r)) (filter (\<lambda>r. type_of r = entry_type) event_stream)))\<rparr>)"

text \<open>Lines 121 to 136: make the directory if it is not there, then write the four files.\<close>

definition export :: "event list \<Rightarrow> fs \<Rightarrow> fs" where
  "export event_stream st =
     fold (write_csv event_stream) CSV_FILES (if output_dir st then st else st\<lparr>output_dir := True\<rparr>)"

section \<open>The run\<close>

text \<open>
  What the script reads: the environment variable (\<open>None\<close> when it is not set), what
  \<^verbatim>\<open>os.listdir\<close> gives for a path (an error for a missing directory), and for a path the
  text that \<^verbatim>\<open>gzip.open\<close>, \<^verbatim>\<open>read\<close> and \<^verbatim>\<open>decode\<close> give (an error when any of them fails).
\<close>

record world =
  LOG_DIRECTORY :: "string option"
  listdir :: "string \<Rightarrow> error + string list"
  gzip_text :: "string \<Rightarrow> error + string"

text \<open>\<^verbatim>\<open>os.listdir(None)\<close> lists the current directory.\<close>

definition os_listdir :: "world \<Rightarrow> string option \<Rightarrow> error + string list" where
  "os_listdir w p = listdir w (case p of None \<Rightarrow> ''.'' | Some d \<Rightarrow> d)"

text \<open>\<^verbatim>\<open>os.path.join(a, b)\<close> of two components; \<^verbatim>\<open>None\<close> for the first raises \<^verbatim>\<open>TypeError\<close>.\<close>

definition os_path_join :: "string option \<Rightarrow> string \<Rightarrow> error + string" where
  "os_path_join a b = (case a of
       None \<Rightarrow> Inl TypeError
     | Some d \<Rightarrow> Inr (if take 1 b = ''/'' then b
                      else if d = [] \<or> last d = CHR ''/'' then d @ b else d @ ''/'' @ b))"

text \<open>
  The loop over the sorted file names, with the event stream and the files written so far.
  The result is the exception that ended the run, if any, the event stream and the files.
\<close>

fun process :: "world \<Rightarrow> string list \<Rightarrow> event list \<times> fs \<Rightarrow> error option \<times> event list \<times> fs" where
  "process w [] (event_stream, st) = (None, event_stream, st)"
| "process w (filename # rest) (event_stream, st) =
    (case fullmatch LOG_FILENAME_FORMAT filename of
       None \<Rightarrow> (Some AttributeError, event_stream, st)
     | Some m \<Rightarrow>
    (case date_fromisoformat (group m ''date'') of
       Inl e \<Rightarrow> (Some e, event_stream, st)
     | Inr log_date \<Rightarrow>
    (case os_path_join (LOG_DIRECTORY w) filename of
       Inl e \<Rightarrow> (Some e, event_stream, st)
     | Inr path \<Rightarrow>
    (case gzip_text w path of
       Inl e \<Rightarrow> (Some e, event_stream, st)
     | Inr log \<Rightarrow>
    (case collect log_date (findall LOG_ENTRY_FORMAT log) event_stream of
       (Some e, event_stream') \<Rightarrow> (Some e, event_stream', st)
     | (None, event_stream') \<Rightarrow> process w rest (event_stream', export event_stream' st))))))"

definition log_files :: "string list \<Rightarrow> string list" where
  "log_files names = sort (filter (\<lambda>x. fullmatch LOG_FILENAME_FORMAT x \<noteq> None) names)"

definition main :: "world \<Rightarrow> fs \<Rightarrow> error option \<times> event list \<times> fs" where
  "main w st = (case os_listdir w (LOG_DIRECTORY w) of
       Inl e \<Rightarrow> (Some e, [], st)
     | Inr names \<Rightarrow> process w (log_files names) ([], st))"


section \<open>Notions used in the proofs\<close>

text \<open>Patterns that take a fixed number of characters and never backtrack.\<close>

fun width :: "rx \<Rightarrow> nat option" where
  "width Eps = Some 0"
| "width (Str w) = Some (length w)"
| "width (One c) = Some 1"
| "width (Rep c lo hi) = (if hi = Some lo then Some lo else None)"
| "width (Cat a b) = (case width a of None \<Rightarrow> None
     | Some m \<Rightarrow> (case width b of None \<Rightarrow> None | Some n \<Rightarrow> Some (m + n)))"
| "width (Alt a b) = None"
| "width (Group n r) = width r"

text \<open>The names of the groups of a pattern.\<close>

fun gnames :: "rx \<Rightarrow> string set" where
  "gnames (Cat a b) = gnames a \<union> gnames b"
| "gnames (Alt a b) = gnames a \<union> gnames b"
| "gnames (Group n r) = insert n (gnames r)"
| "gnames _ = {}"

text \<open>The common beginning of the five entry patterns matches at the start of a string.\<close>

definition head_ok :: "string \<Rightarrow> bool" where
  "head_ok s = (run (seq HEAD) ([], s) \<noteq> [])"


text \<open>The beginning of an entry as the server writes it, with the text \<open>ts\<close> for the time.\<close>

definition entry_head :: "string \<Rightarrow> string" where
  "entry_head ts = ''['' @ ts @ ''] [Server thread/INFO] [net.minecraft.server.dedicated.DedicatedServer]: ''"


text \<open>The five patterns that classification tries.\<close>

definition entry_patterns :: "rx set" where
  "entry_patterns = {JOIN_FORMAT, LEAVE_FORMAT, ADVANCEMENT_FORMAT, DEATH_FORMAT, MESSAGE_FORMAT}"

text \<open>
  An entry that the denylist drops: the join, leave and advancement patterns do not match
  it, the death pattern does, and the player group of that match is in \<open>NOT_PLAYERS\<close>.
\<close>

definition denylisted :: "string \<Rightarrow> bool" where
  "denylisted e = (match JOIN_FORMAT e = None \<and> match LEAVE_FORMAT e = None
      \<and> match ADVANCEMENT_FORMAT e = None
      \<and> (case match DEATH_FORMAT e of None \<Rightarrow> False
          | Some m \<Rightarrow> group m ''player'' \<in> set NOT_PLAYERS))"


text \<open>Patterns that never take a newline.\<close>

fun nl_free :: "rx \<Rightarrow> bool" where
  "nl_free Eps = True"
| "nl_free (Str w) = (NL \<notin> set w)"
| "nl_free (One c) = (\<not> cls_ok c NL)"
| "nl_free (Rep c lo hi) = (\<not> cls_ok c NL)"
| "nl_free (Cat a b) = (nl_free a \<and> nl_free b)"
| "nl_free (Alt a b) = (nl_free a \<and> nl_free b)"
| "nl_free (Group n r) = nl_free r"

text \<open>A string begins with the marker of an entry.\<close>

definition marker_ok :: "string \<Rightarrow> bool" where
  "marker_ok t = (run (seq MARKER) ([], t) \<noteq> [])"

text \<open>\<^verbatim>\<open>text.split('\n')\<close>: the physical lines of a text.\<close>

fun split_nl :: "string \<Rightarrow> string list" where
  "split_nl [] = [[]]"
| "split_nl (c # s) = (if c = NL then [] # split_nl s
                       else (case split_nl s of [] \<Rightarrow> [[c]] | l # ls \<Rightarrow> (c # l) # ls))"

text \<open>
  The splitting as the specification words it: a physical line that begins with the marker
  starts an entry, and every line after it that does not is a continuation, kept with its
  newline as part of that entry. \<open>gather\<close> goes through the lines from the last to the
  first, with the continuation text met so far.
\<close>

fun gather :: "string list \<Rightarrow> string \<times> string list" where
  "gather [] = ([], [])"
| "gather (l # ls) = (case gather ls of (cont, es) \<Rightarrow>
      if marker_ok l then ([], (l @ cont) # es) else (NL # l @ cont, es))"

definition spec_entries :: "string \<Rightarrow> string list" where
  "spec_entries log = snd (gather (tl (split_nl log)))"

text \<open>Python compares dates as the triples year, month, day.\<close>

fun date_less :: "date \<Rightarrow> date \<Rightarrow> bool" where
  "date_less (Date y m d) (Date y' m' d') =
     (y < y' \<or> (y = y' \<and> (m < m' \<or> (m = m' \<and> d < d'))))"

text \<open>
  The events that the pass of the loop over the log files for the source \<open>filename\<close>
  appends to the stream; if the pass ends with an exception, those appended before it.
\<close>

definition source_events :: "world \<Rightarrow> string \<Rightarrow> event list" where
  "source_events w filename =
    (case fullmatch LOG_FILENAME_FORMAT filename of None \<Rightarrow> [] | Some m \<Rightarrow>
    (case date_fromisoformat (group m ''date'') of Inl e \<Rightarrow> [] | Inr log_date \<Rightarrow>
    (case os_path_join (LOG_DIRECTORY w) filename of Inl e \<Rightarrow> [] | Inr path \<Rightarrow>
    (case gzip_text w path of Inl e \<Rightarrow> [] | Inr log \<Rightarrow>
       snd (collect log_date (findall LOG_ENTRY_FORMAT log) [])))))"

text \<open>A directory with the logs of two days, listed out of order, and another file.\<close>

definition two_days :: world where
  "two_days = \<lparr>LOG_DIRECTORY = Some ''logs'',
     listdir = (\<lambda>p. if p = ''logs'' then Inr [''2024-01-02-1.log.gz'', ''notes.txt'', ''2024-01-01-1.log.gz'']
                     else Inl OSError),
     gzip_text = (\<lambda>p.
        if p = ''logs/2024-01-01-1.log.gz''
        then Inr (NL # ''[23:59:59] [Server thread/INFO] [net.minecraft.server.dedicated.DedicatedServer]: Steve joined the game'')
        else if p = ''logs/2024-01-02-1.log.gz''
        then Inr (NL # ''[00:00:01] [Server thread/INFO] [net.minecraft.server.dedicated.DedicatedServer]: Steve left the game'')
        else Inl OSError)\<rparr>"

text \<open>A directory with one log, whose first entry after the first line has the hour 25.\<close>

definition bad_time :: world where
  "bad_time = \<lparr>LOG_DIRECTORY = Some ''logs'',
     listdir = (\<lambda>p. if p = ''logs'' then Inr [''2024-03-05-1.log.gz''] else Inl OSError),
     gzip_text = (\<lambda>p.
        if p = ''logs/2024-03-05-1.log.gz''
        then Inr (NL # ''[25:00:00] [Server thread/INFO] [net.minecraft.server.dedicated.DedicatedServer]: Steve joined the game''
               @ NL # ''[14:22:01] [Server thread/INFO] [net.minecraft.server.dedicated.DedicatedServer]: Alex joined the game'')
        else Inl OSError)\<rparr>"

section \<open>Facts about the search\<close>

lemma concat_map_concat:
  "concat (map f (concat xss)) = concat (map (\<lambda>xs. concat (map f xs)) xss)"
  by (induction xss) simp_all

lemma run_seq_append:
  "run (seq (xs @ ys)) st = concat (map (run (seq ys)) (run (seq xs) st))"
proof (induction xs arbitrary: st)
  case Nil
  show ?case by simp
next
  case (Cons r rs)
  have "run (seq (rs @ ys)) = (\<lambda>st. concat (map (run (seq ys)) (run (seq rs) st)))"
    by (rule ext) (rule Cons.IH)
  then show ?case by (simp add: concat_map_concat comp_def)
qed

text \<open>The groups found are put in front of those already there.\<close>

lemma run_shift:
  "run r (g, s) = map (\<lambda>(g', s'). (g' @ g, s')) (run r ([], s))"
proof (induction r arbitrary: g s)
  case (Cat a b)
  have b: "run b (h @ g, t) = map (\<lambda>(g', s'). (g' @ g, s')) (run b (h, t))" for h t
  proof -
    have "run b (h @ g, t) = map (\<lambda>(g', s'). (g' @ h @ g, s')) (run b ([], t))"
      by (rule Cat.IH(2))
    moreover have "run b (h, t) = map (\<lambda>(g', s'). (g' @ h, s')) (run b ([], t))"
      by (rule Cat.IH(2))
    ultimately show ?thesis by (simp add: split_def)
  qed
  have "run (Cat a b) (g, s) = concat (map (run b) (map (\<lambda>(g', s'). (g' @ g, s')) (run a ([], s))))"
    using Cat.IH(1) [of g s] by simp
  also have "\<dots> = concat (map (\<lambda>(h, t). map (\<lambda>(g', s'). (g' @ g, s')) (run b (h, t))) (run a ([], s)))"
    by (simp add: comp_def split_def b)
  also have "\<dots> = map (\<lambda>(g', s'). (g' @ g, s')) (run (Cat a b) ([], s))"
    by (simp add: map_concat comp_def split_def)
  finally show ?case .
next
  case (Alt a b)
  show ?case using Alt.IH(1) [of g s] Alt.IH(2) [of g s] by simp
next
  case (Group n r)
  show ?case using Group.IH [of g s] by (simp add: split_def)
qed (simp_all split: list.split)

lemma run_empty_iff: "run r (g, s) = [] \<longleftrightarrow> run r ([], s) = []"
  using run_shift [of r g s] by simp

lemma take_diff_drop: "take (length s - length (drop k s)) s = take k s"
  by (cases "k \<le> length s") simp_all

lemma run_width:
  "width r = Some n \<Longrightarrow> run r (g, s) = [] \<or> (\<exists>h. run r (g, s) = [(h, drop n s)] \<and> n \<le> length s)"
proof (induction r arbitrary: n g s)
  case (Str w)
  have "length w \<le> length s" if "take (length w) s = w"
  proof -
    have "length (take (length w) s) = length w" using that by simp
    then show ?thesis by simp
  qed
  then show ?case using Str by auto
next
  case (One c)
  then show ?case by (cases s) auto
next
  case (Rep c lo hi)
  then have hi: "hi = Some lo" and n: "n = lo" by (auto split: if_splits)
  have "length (takeWhile (cls_ok c) s) \<le> length s" by (rule length_takeWhile_le)
  then show ?case using hi n by (auto simp: min_def)
next
  case (Cat a b)
  from Cat.prems obtain m k where a: "width a = Some m" and b: "width b = Some k" and n: "n = m + k"
    by (auto split: option.splits)
  from Cat.IH(1) [OF a, of g s] show ?case
  proof
    assume "run a (g, s) = []"
    then show ?thesis by simp
  next
    assume "\<exists>h. run a (g, s) = [(h, drop m s)] \<and> m \<le> length s"
    then obtain h where h: "run a (g, s) = [(h, drop m s)]" and m: "m \<le> length s" by blast
    from Cat.IH(2) [OF b, of h "drop m s"] show ?thesis
      using h m n by (auto simp: add.commute)
  qed
next
  case (Group x r)
  then have "width r = Some n" by simp
  from Group.IH [OF this, of g s] show ?case by auto
qed simp_all

lemma run_groups:
  "(g', s') \<in> set (run r (g, s)) \<Longrightarrow> \<exists>h. g' = h @ g \<and> fst ` set h \<subseteq> gnames r"
proof (induction r arbitrary: g s g' s')
  case (Cat a b)
  from Cat.prems obtain g1 s1 where 1: "(g1, s1) \<in> set (run a (g, s))"
    and 2: "(g', s') \<in> set (run b (g1, s1))" by auto
  from Cat.IH(1) [OF 1] obtain h1 where h1: "g1 = h1 @ g" "fst ` set h1 \<subseteq> gnames a" by blast
  from Cat.IH(2) [OF 2] obtain h2 where h2: "g' = h2 @ g1" "fst ` set h2 \<subseteq> gnames b" by blast
  have "g' = (h2 @ h1) @ g" using h1 h2 by simp
  moreover have "fst ` set (h2 @ h1) \<subseteq> gnames (Cat a b)" using h1 h2 by auto
  ultimately show ?case by blast
next
  case (Alt a b)
  from Alt.prems have "(g', s') \<in> set (run a (g, s)) \<or> (g', s') \<in> set (run b (g, s))" by simp
  then show ?case
  proof
    assume "(g', s') \<in> set (run a (g, s))"
    from Alt.IH(1) [OF this] show ?thesis by auto
  next
    assume "(g', s') \<in> set (run b (g, s))"
    from Alt.IH(2) [OF this] show ?thesis by auto
  qed
next
  case (Group n r)
  from Group.prems obtain g1 where 1: "(g1, s') \<in> set (run r (g, s))"
    and g': "g' = (n, take (length s - length s') s) # g1" by auto
  from Group.IH [OF 1] obtain h where "g1 = h @ g" "fst ` set h \<subseteq> gnames r" by blast
  then have "g' = ((n, take (length s - length s') s) # h) @ g"
    and "fst ` set ((n, take (length s - length s') s) # h) \<subseteq> gnames (Group n r)"
    using g' by auto
  then show ?case by blast
qed (auto split: if_splits list.splits)

lemma run_keeps_group:
  assumes "(g', s') \<in> set (run r (g, s))" and "n \<notin> gnames r"
  shows "map_of g' n = map_of g n"
proof -
  from run_groups [OF assms(1)] obtain h where h: "g' = h @ g" "fst ` set h \<subseteq> gnames r" by blast
  then have "n \<notin> fst ` set h" using assms(2) by blast
  then have "map_of h n = None" by (simp add: map_of_eq_None_iff)
  then show ?thesis using h(1) by (simp add: map_add_def)
qed


lemma run_plain:
  assumes "width r = Some k" and "gnames r = {}"
  shows "run r (g, s) = (if run r ([], s) = [] then [] else [(g, drop k s)])"
proof (cases "run r (g, s) = []")
  case True
  then show ?thesis using run_empty_iff [of r g s] by simp
next
  case False
  with run_width [OF assms(1), of g s] obtain h where h: "run r (g, s) = [(h, drop k s)]" by blast
  then have "(h, drop k s) \<in> set (run r (g, s))" by simp
  from run_groups [OF this] have "h = g" using assms(2) by auto
  then show ?thesis using h False run_empty_iff [of r g s] by simp
qed

lemma run_plain_length:
  assumes "width r = Some k" and "run r ([], s) \<noteq> []"
  shows "k \<le> length s"
  using run_width [OF assms(1), of "[]" s] assms(2) by auto

lemma run_Group_plain:
  assumes "width r = Some k" and "gnames r = {}"
  shows "run (Group n r) (g, s) =
           (if run r ([], s) = [] then [] else [((n, take k s) # g, drop k s)])"
  by (simp add: run_plain [OF assms, of g s] take_diff_drop del: length_drop)

lemma run_head_shape:
  assumes T: "width T = Some 8" "gnames T = {}" and R: "width R = Some 73" "gnames R = {}"
  shows "run (Cat (Str ''['') (Cat (Group n T) R)) (g, s) =
           (if run (Cat (Str ''['') (Cat (Group n T) R)) ([], s) \<noteq> []
            then [((n, take 8 (drop 1 s)) # g, drop 82 s)] else [])"
proof -
  have "run (Cat (Str ''['') (Cat (Group n T) R)) (h, s) =
          (if take 1 s = ''['' \<and> run T ([], drop 1 s) \<noteq> [] \<and> run R ([], drop 9 s) \<noteq> []
           then [((n, take 8 (drop 1 s)) # h, drop 82 s)] else [])" for h
    by (simp add: run_Group_plain [OF T] run_plain [OF R, of "(n, take 8 (drop (Suc 0) s)) # h"]
          del: run.simps(7))
  then show ?thesis by simp
qed

lemma run_HEAD:
  "run (seq HEAD) (g, s) =
     (if head_ok s then [((''time'', take 8 (drop 1 s)) # g, drop 82 s)] else [])"
  unfolding head_ok_def HEAD_def seq.simps
  by (rule run_head_shape) simp_all

lemma run_HEAD_then:
  "run (seq (HEAD @ rs)) (g, s) =
     (if head_ok s then run (seq rs) ((''time'', take 8 (drop 1 s)) # g, drop 82 s) else [])"
  by (simp add: run_seq_append run_HEAD)


text \<open>
  A greedy repetition followed by literal text that begins with a character outside the
  class: only the longest run of the class can be followed by that text, so the search
  does not backtrack into the repetition.
\<close>

lemma drop_in_run:
  assumes "j < length (takeWhile P s)"
  shows "\<exists>t. drop j s = (s ! j) # t \<and> P (s ! j)"
proof -
  have "length (takeWhile P s) \<le> length s" by (rule length_takeWhile_le)
  then have j: "j < length s" using assms by simp
  have "takeWhile P s ! j \<in> set (takeWhile P s)" using assms by simp
  then have "P (takeWhile P s ! j)" by (rule set_takeWhileD [THEN conjunct2])
  then have "P (s ! j)" using assms by (simp add: takeWhile_nth)
  moreover have "drop j s = s ! j # drop (Suc j) s" using j by (simp add: Cons_nth_drop_Suc)
  ultimately show ?thesis by blast
qed

lemma rep_max_le: "rep_max c hi s \<le> length (takeWhile (cls_ok c) s)"
  by (cases hi) simp_all

lemma run_greedy_then:
  assumes "\<not> cls_ok c x"
  shows "run (Cat (Group n (Rep c lo hi)) (Cat (Str (x # w)) b)) (g, s) =
     (let k = length (takeWhile (cls_ok c) s) in
      if lo \<le> k \<and> (case hi of None \<Rightarrow> True | Some h \<Rightarrow> k \<le> h)
           \<and> take (Suc (length w)) (drop k s) = x # w
      then run b ((n, take k s) # g, drop (k + Suc (length w)) s) else [])"
proof -
  define k where "k = length (takeWhile (cls_ok c) s)"
  define F where "F j = run (Cat (Str (x # w)) b) ((n, take j s) # g, drop j s)" for j
  have F: "F j = (if take (Suc (length w)) (drop j s) = x # w
                  then run b ((n, take j s) # g, drop (j + Suc (length w)) s) else [])" for j
    by (simp add: F_def add.commute)
  have small: "F j = []" if "j < k" for j
  proof -
    from drop_in_run [of j "cls_ok c" s] that obtain t
      where "drop j s = (s ! j) # t" and "cls_ok c (s ! j)" by (auto simp: k_def)
    then show ?thesis using assms by (auto simp: F)
  qed
  have run: "run (Cat (Group n (Rep c lo hi)) (Cat (Str (x # w)) b)) (g, s) =
               concat (map F (rev [lo ..< Suc (rep_max c hi s)]))"
  proof -
    have "run (Group n (Rep c lo hi)) (g, s) =
            map (\<lambda>j. ((n, take j s) # g, drop j s)) (rev [lo ..< Suc (rep_max c hi s)])"
      by (simp add: take_diff_drop comp_def del: length_drop upt_Suc)
    then have "run (Cat (Group n (Rep c lo hi)) (Cat (Str (x # w)) b)) (g, s) =
            concat (map (run (Cat (Str (x # w)) b))
              (map (\<lambda>j. ((n, take j s) # g, drop j s)) (rev [lo ..< Suc (rep_max c hi s)])))"
      by (simp only: run.simps(5))
    also have "\<dots> = concat (map F (rev [lo ..< Suc (rep_max c hi s)]))"
      unfolding F_def by (simp only: map_map comp_def)
    finally show ?thesis .
  qed
  have m: "rep_max c hi s \<le> k" unfolding k_def by (rule rep_max_le)
  let ?rhs = "let k = length (takeWhile (cls_ok c) s) in
      if lo \<le> k \<and> (case hi of None \<Rightarrow> True | Some h \<Rightarrow> k \<le> h)
           \<and> take (Suc (length w)) (drop k s) = x # w
      then run b ((n, take k s) # g, drop (k + Suc (length w)) s) else []"
  show ?thesis
  proof (cases "lo \<le> k \<and> (case hi of None \<Rightarrow> True | Some h \<Rightarrow> k \<le> h)")
    case True
    then have "rep_max c hi s = k" by (cases hi) (simp_all add: k_def)
    then have "rev [lo ..< Suc (rep_max c hi s)] = k # rev [lo ..< k]" using True by simp
    moreover have "concat (map F (rev [lo ..< k])) = []" using small by simp
    ultimately have "concat (map F (rev [lo ..< Suc (rep_max c hi s)])) = F k" by simp
    moreover have "?rhs = F k" using True by (cases hi) (simp_all add: F k_def Let_def)
    ultimately show ?thesis by (simp only: run)
  next
    case False
    have "j < k" if "j \<in> set (rev [lo ..< Suc (rep_max c hi s)])" for j
    proof -
      from that have j: "lo \<le> j" "j \<le> rep_max c hi s" by auto
      show ?thesis
      proof (cases hi)
        case None
        then show ?thesis using False j m by simp
      next
        case (Some h)
        then have "rep_max c hi s = min h k" by (simp add: k_def)
        then show ?thesis using False j Some by (auto simp: min_def split: if_splits)
      qed
    qed
    then have "concat (map F (rev [lo ..< Suc (rep_max c hi s)])) = []" using small by simp
    moreover have "?rhs = []" using False by (cases hi) (auto simp: k_def Let_def)
    ultimately show ?thesis by (simp only: run)
  qed
qed

section \<open>Facts about the entry patterns\<close>

lemma not_word_chars [simp]:
  "\<not> is_word CHR '' ''" "\<not> is_word CHR ''<''" "\<not> is_word CHR ''>''"
  by (simp_all add: is_word_def)

lemma run_MESSAGE:
  "run MESSAGE_FORMAT (g, s) \<noteq> [] \<Longrightarrow> head_ok s \<and> take 1 (drop 82 s) = ''<''"
  unfolding MESSAGE_FORMAT_def
  by (simp add: run_HEAD_then del: run.simps split: if_splits) (simp split: if_splits)

lemma run_DEATH_needs_word:
  assumes "run DEATH_FORMAT (g, s) \<noteq> []"
  shows "head_ok s \<and> takeWhile is_word (drop 82 s) \<noteq> []"
proof -
  from assms have h: "head_ok s"
    and r: "run (Cat PLAYER (Cat (Str '' '') (seq [Group ''cause'' (Rep Dot 0 None)])))
              ((''time'', take 8 (drop 1 s)) # g, drop 82 s) \<noteq> []"
    unfolding DEATH_FORMAT_def by (simp_all add: run_HEAD_then del: run.simps split: if_splits)
  from r have "1 \<le> length (takeWhile (cls_ok Word) (drop 82 s))"
    unfolding PLAYER_def
    by (simp add: run_greedy_then Let_def del: run.simps split: if_splits)
  then have "takeWhile (cls_ok Word) (drop 82 s) \<noteq> []" by auto
  moreover have "cls_ok Word = is_word" by (rule ext) simp
  ultimately show ?thesis using h by simp
qed


lemma time_shape:
  assumes "time_fromisoformat ts = Inr t"
  obtains h1 h2 m1 m2 c1 c2 where "ts = [h1, h2, CHR '':'', m1, m2, CHR '':'', c1, c2]"
    and "is_digit h1" "is_digit h2" "is_digit m1" "is_digit m2" "is_digit c1" "is_digit c2"
  using assms by (rule time_fromisoformat.elims) (auto split: if_splits)

lemma head_ok_literal:
  assumes "time_fromisoformat ts = Inr t"
  shows "head_ok (entry_head ts @ x)" and "drop 82 (entry_head ts @ x) = x"
    and "take 8 (drop 1 (entry_head ts @ x)) = ts"
proof -
  from assms obtain h1 h2 m1 m2 c1 c2 where ts: "ts = [h1, h2, CHR '':'', m1, m2, CHR '':'', c1, c2]"
    and d: "is_digit h1" "is_digit h2" "is_digit m1" "is_digit m2" "is_digit c1" "is_digit c2"
    by (rule time_shape)
  show "drop 82 (entry_head ts @ x) = x" by (simp add: ts entry_head_def)
  show "take 8 (drop 1 (entry_head ts @ x)) = ts" by (simp add: ts entry_head_def)
  show "head_ok (entry_head ts @ x)"
    unfolding head_ok_def HEAD_def entry_head_def ts using d
    by (simp add: NL_def)
qed


lemma takeWhile_word_then:
  assumes "list_all is_word p" and "\<not> is_word x"
  shows "takeWhile (cls_ok Word) (p @ x # t) = p"
proof -
  have "cls_ok Word = is_word" by (rule ext) simp
  moreover have "takeWhile is_word (p @ x # t) = p"
    using assms by (simp add: takeWhile_append2 list_all_iff)
  ultimately show ?thesis by simp
qed

lemma run_PLAYER_then:
  assumes "p \<noteq> []" and "length p \<le> 16" and "list_all is_word p" and "\<not> is_word x"
  shows "run (Cat PLAYER (Cat (Str (x # w)) b)) (g, p @ x # w @ u) = run b ((''player'', p) # g, u)"
proof -
  have k: "takeWhile (cls_ok Word) (p @ x # w @ u) = p"
    using assms(3,4) by (rule takeWhile_word_then)
  have x: "\<not> cls_ok Word x" using assms(4) by simp
  have "1 \<le> length p" using assms(1) by (cases p) simp_all
  then show ?thesis
    unfolding PLAYER_def run_greedy_then [OF x] k Let_def using assms(2) by simp
qed

lemma match_JOIN_literal:
  assumes "time_fromisoformat ts = Inr t" and "p \<noteq> []" and "length p \<le> 16" and "list_all is_word p"
  shows "match JOIN_FORMAT (entry_head ts @ p @ '' joined the game'' @ rest)
           = Some [(''player'', p), (''time'', ts)]"
proof -
  have "run (Cat PLAYER (Cat (Str (CHR '' '' # ''joined the game'')) Eps))
            ([(''time'', ts)], p @ CHR '' '' # ''joined the game'' @ rest)
          = [([(''player'', p), (''time'', ts)], rest)]"
    by (simp only: run_PLAYER_then [OF assms(2-4) not_word_chars(1)] run.simps(1))
  then have "run (seq [PLAYER, Str '' joined the game'']) ([(''time'', ts)], p @ '' joined the game'' @ rest)
          = [([(''player'', p), (''time'', ts)], rest)]"
    by (simp del: run.simps)
  then have "run JOIN_FORMAT ([], entry_head ts @ p @ '' joined the game'' @ rest)
          = [([(''player'', p), (''time'', ts)], rest)]"
    unfolding JOIN_FORMAT_def
    by (simp only: run_HEAD_then head_ok_literal [OF assms(1)] if_True)
  then show ?thesis by (simp add: match_def)
qed


lemma match_in_run:
  assumes "match r s = Some m"
  shows "\<exists>s'. (m, s') \<in> set (run r ([], s))"
  using assms by (auto simp: match_def split: list.splits)

lemma time_after_HEAD:
  assumes "match (seq (HEAD @ rs)) e = Some m" and "''time'' \<notin> gnames (seq rs)"
  shows "group m ''time'' = take 8 (drop 1 e)"
proof -
  from match_in_run [OF assms(1)] obtain s' where "(m, s') \<in> set (run (seq (HEAD @ rs)) ([], e))"
    by blast
  then have "(m, s') \<in> set (run (seq rs) ([(''time'', take 8 (drop 1 e))], drop 82 e))"
    by (simp add: run_HEAD_then del: run.simps split: if_splits)
  from run_keeps_group [OF this assms(2)] show ?thesis by (simp add: group_def)
qed

lemma time_group:
  assumes "match P e = Some m" and "P \<in> entry_patterns"
  shows "group m ''time'' = take 8 (drop 1 e)"
proof -
  from assms(2) consider "P = JOIN_FORMAT" | "P = LEAVE_FORMAT" | "P = ADVANCEMENT_FORMAT"
    | "P = DEATH_FORMAT" | "P = MESSAGE_FORMAT" by (auto simp: entry_patterns_def)
  then show ?thesis
  proof cases
    case 1
    with assms(1) have "match JOIN_FORMAT e = Some m" by simp
    then show ?thesis unfolding JOIN_FORMAT_def
      by (rule time_after_HEAD) (simp add: PLAYER_def)
  next
    case 2
    with assms(1) have "match LEAVE_FORMAT e = Some m" by simp
    then show ?thesis unfolding LEAVE_FORMAT_def
      by (rule time_after_HEAD) (simp add: PLAYER_def)
  next
    case 3
    with assms(1) have "match ADVANCEMENT_FORMAT e = Some m" by simp
    then show ?thesis unfolding ADVANCEMENT_FORMAT_def
      by (rule time_after_HEAD) (simp add: PLAYER_def)
  next
    case 4
    with assms(1) have "match DEATH_FORMAT e = Some m" by simp
    then show ?thesis unfolding DEATH_FORMAT_def
      by (rule time_after_HEAD) (simp add: PLAYER_def)
  next
    case 5
    with assms(1) have "match MESSAGE_FORMAT e = Some m" by simp
    then show ?thesis unfolding MESSAGE_FORMAT_def
      by (rule time_after_HEAD) (simp add: PLAYER_def)
  qed
qed


lemma collect_append:
  "collect d es1 evs = (None, evs1) \<Longrightarrow> collect d (es1 @ es2) evs = collect d es2 evs1"
  by (induction es1 arbitrary: evs) (auto split: sum.splits option.splits)


section \<open>Facts about the splitting into entries\<close>

lemma run_consumes:
  "(g', s') \<in> set (run r (g, s)) \<Longrightarrow> \<exists>u. s = u @ s' \<and> (nl_free r \<longrightarrow> NL \<notin> set u)"
proof (induction r arbitrary: g s g' s')
  case (Str w)
  then have "take (length w) s = w" and "s' = drop (length w) s" by (auto split: if_splits)
  then have "s = w @ s'" by (metis append_take_drop_id)
  then show ?case by auto
next
  case (One c)
  then show ?case by (cases s) (auto split: if_splits)
next
  case (Rep c lo hi)
  then have "\<exists>k. k \<le> rep_max c hi s \<and> s' = drop k s"
    by (auto simp del: upt_Suc simp: less_Suc_eq_le)
  then obtain k where k: "k \<le> rep_max c hi s" and s': "s' = drop k s" by blast
  have "k \<le> length (takeWhile (cls_ok c) s)" using k rep_max_le [of c hi s] by simp
  then have "take k (takeWhile (cls_ok c) s) = take k s"
    by (subst takeWhile_eq_take) (simp add: min_def)
  then have "set (take k s) \<subseteq> set (takeWhile (cls_ok c) s)" by (metis set_take_subset)
  then have "\<forall>x \<in> set (take k s). cls_ok c x" by (auto dest: set_takeWhileD)
  then have "nl_free (Rep c lo hi) \<longrightarrow> NL \<notin> set (take k s)" by auto
  moreover have "s = take k s @ s'" using s' by simp
  ultimately show ?case by blast
next
  case (Cat a b)
  from Cat.prems obtain g1 s1 where 1: "(g1, s1) \<in> set (run a (g, s))"
    and 2: "(g', s') \<in> set (run b (g1, s1))" by auto
  from Cat.IH(1) [OF 1] obtain u1 where u1: "s = u1 @ s1" "nl_free a \<longrightarrow> NL \<notin> set u1" by blast
  from Cat.IH(2) [OF 2] obtain u2 where u2: "s1 = u2 @ s'" "nl_free b \<longrightarrow> NL \<notin> set u2" by blast
  have "s = (u1 @ u2) @ s'" using u1 u2 by simp
  moreover have "nl_free (Cat a b) \<longrightarrow> NL \<notin> set (u1 @ u2)" using u1 u2 by simp
  ultimately show ?case by blast
next
  case (Alt a b)
  from Alt.prems have "(g', s') \<in> set (run a (g, s)) \<or> (g', s') \<in> set (run b (g, s))" by simp
  then show ?case using Alt.IH by fastforce
next
  case (Group n r)
  from Group.prems obtain g1 where "(g1, s') \<in> set (run r (g, s))" by auto
  from Group.IH [OF this] show ?case by simp
qed auto


lemma nl_class [simp]: "\<not> is_digit NL" "\<not> is_word NL"
  by (simp_all add: is_digit_def is_word_def NL_def)

lemma run_MARKER:
  "run (seq MARKER) (g, t) = (if marker_ok t then [(g, drop 11 t)] else [])"
  unfolding marker_ok_def
  by (subst run_plain [where k = 11]) (simp_all add: MARKER_def)

lemma marker_prefix:
  assumes "marker_ok t"
  shows "NL \<notin> set (take 11 t)"
proof -
  have "([], drop 11 t) \<in> set (run (seq MARKER) ([], t))" using assms by (simp add: run_MARKER)
  from run_consumes [OF this] obtain u where u: "t = u @ drop 11 t" "nl_free (seq MARKER) \<longrightarrow> NL \<notin> set u"
    by blast
  have "nl_free (seq MARKER)" by (simp add: MARKER_def NL_def is_digit_def)
  then have "NL \<notin> set u" using u(2) by simp
  moreover have "take 11 t = u"
  proof -
    have "width (seq MARKER) = Some 11" by (simp add: MARKER_def)
    from run_plain_length [OF this] assms have "11 \<le> length t" by (simp add: marker_ok_def)
    moreover have "length t = length u + (length t - 11)"
      using arg_cong [OF u(1), of length] by (simp only: length_append length_drop)
    ultimately have l: "length u = 11" by arith
    have "take 11 t = take 11 (u @ drop 11 t)" using u(1) by (rule arg_cong)
    also have "\<dots> = u" using l by simp
    finally show ?thesis .
  qed
  ultimately show ?thesis by simp
qed

lemma Dot_is_not_NL: "cls_ok Dot = (\<lambda>c. c \<noteq> NL)"
  by (rule ext) simp

text \<open>The first line of a text, up to its first newline, and what follows it.\<close>

lemma marker_line:
  assumes "marker_ok t"
  shows "takeWhile (\<lambda>c. c \<noteq> NL) t = take 11 t @ takeWhile (\<lambda>c. c \<noteq> NL) (drop 11 t)"
    and "dropWhile (\<lambda>c. c \<noteq> NL) t = dropWhile (\<lambda>c. c \<noteq> NL) (drop 11 t)"
proof -
  have t: "t = take 11 t @ drop 11 t" by simp
  have n: "\<And>x. x \<in> set (take 11 t) \<Longrightarrow> x \<noteq> NL" using marker_prefix [OF assms] by auto
  show "takeWhile (\<lambda>c. c \<noteq> NL) t = take 11 t @ takeWhile (\<lambda>c. c \<noteq> NL) (drop 11 t)"
    by (subst t) (simp only: takeWhile_append2 [OF n])
  show "dropWhile (\<lambda>c. c \<noteq> NL) t = dropWhile (\<lambda>c. c \<noteq> NL) (drop 11 t)"
    by (subst t) (simp only: dropWhile_append2 [OF n])
qed

lemma run_ENTRY_other:
  "c \<noteq> NL \<Longrightarrow> run LOG_ENTRY_FORMAT (g, c # t) = []"
  by (simp add: LOG_ENTRY_FORMAT_def)

lemma run_ENTRY_empty: "run LOG_ENTRY_FORMAT (g, []) = []"
  by (simp add: LOG_ENTRY_FORMAT_def)

lemma run_ENTRY_no_marker:
  assumes "\<not> marker_ok t"
  shows "run LOG_ENTRY_FORMAT (g, NL # t) = []"
proof -
  have "run (seq (MARKER @ [Rep Dot 0 None])) (g, t) = []"
    using assms by (simp add: run_seq_append run_MARKER del: run.simps)
  then show ?thesis by (simp add: LOG_ENTRY_FORMAT_def)
qed

lemma run_ENTRY_marker:
  assumes "marker_ok t"
  shows "\<exists>more. run LOG_ENTRY_FORMAT ([], NL # t) =
           ([(''1'', takeWhile (\<lambda>c. c \<noteq> NL) t)], dropWhile (\<lambda>c. c \<noteq> NL) t) # more"
proof -
  define n where "n = length (takeWhile (\<lambda>c. c \<noteq> NL) (drop 11 t))"
  define line where "line = takeWhile (\<lambda>c. c \<noteq> NL) t"
  define rest where "rest = dropWhile (\<lambda>c. c \<noteq> NL) t"
  have "drop n (drop 11 t) = rest"
    unfolding n_def rest_def marker_line(2) [OF assms] by (simp add: dropWhile_eq_drop)
  then have rest: "drop (n + 11) t = rest" by simp
  have "run (Rep Dot 0 None) ([], drop 11 t) =
          ([], drop n (drop 11 t)) # map (\<lambda>k. ([], drop k (drop 11 t))) (rev [0 ..< n])"
    by (simp add: n_def Dot_is_not_NL)
  then have "run (seq (MARKER @ [Rep Dot 0 None])) ([], t) =
          ([], rest) # map (\<lambda>k. ([], drop k (drop 11 t))) (rev [0 ..< n])"
    using assms by (simp add: run_seq_append run_MARKER rest comp_def del: run.simps(4))
  then obtain more where "run (seq (MARKER @ [Rep Dot 0 None])) ([], t) = ([], rest) # more"
    by blast
  then have "run (Group ''1'' (seq (MARKER @ [Rep Dot 0 None]))) ([], t) =
          ([(''1'', take (length t - length rest) t)], rest)
            # map (\<lambda>(g', s'). ((''1'', take (length t - length s') t) # g', s')) more"
    by (simp only: run.simps list.map prod.case)
  moreover have "take (length t - length rest) t = line"
  proof -
    have "t = line @ rest" by (simp add: line_def rest_def)
    then have "take (length t - length rest) t = take (length line) (line @ rest)" by simp
    then show ?thesis by simp
  qed
  ultimately have g: "run (Group ''1'' (seq (MARKER @ [Rep Dot 0 None]))) ([], t) =
          ([(''1'', line)], rest)
            # map (\<lambda>(g', s'). ((''1'', take (length t - length s') t) # g', s')) more"
    by (simp only:)
  have "run LOG_ENTRY_FORMAT ([], NL # t) =
          concat (map (run Eps) (run (Group ''1'' (seq (MARKER @ [Rep Dot 0 None]))) ([], t)))"
    by (simp add: LOG_ENTRY_FORMAT_def del: run.simps(1) run.simps(7))
  then have "run LOG_ENTRY_FORMAT ([], NL # t) = ([(''1'', line)], rest)
      # concat (map (run Eps) (map (\<lambda>(g', s'). ((''1'', take (length t - length s') t) # g', s')) more))"
    by (simp only: g list.map concat.simps run.simps(1) append_Cons append_Nil)
  then show ?thesis unfolding line_def rest_def by blast
qed

lemma findall_Nil: "findall LOG_ENTRY_FORMAT [] = []"
  by (subst findall.simps) (simp add: run_ENTRY_empty)

lemma findall_other:
  "c \<noteq> NL \<Longrightarrow> findall LOG_ENTRY_FORMAT (c # t) = findall LOG_ENTRY_FORMAT t"
  by (subst findall.simps) (simp add: run_ENTRY_other)

lemma findall_no_marker:
  "\<not> marker_ok t \<Longrightarrow> findall LOG_ENTRY_FORMAT (NL # t) = findall LOG_ENTRY_FORMAT t"
  by (subst findall.simps) (simp add: run_ENTRY_no_marker)

lemma findall_marker:
  assumes "marker_ok t"
  shows "findall LOG_ENTRY_FORMAT (NL # t) =
           takeWhile (\<lambda>c. c \<noteq> NL) t # findall LOG_ENTRY_FORMAT (dropWhile (\<lambda>c. c \<noteq> NL) t)"
proof -
  from run_ENTRY_marker [OF assms] obtain more where
    r: "run LOG_ENTRY_FORMAT ([], NL # t) =
           ([(''1'', takeWhile (\<lambda>c. c \<noteq> NL) t)], dropWhile (\<lambda>c. c \<noteq> NL) t) # more" by blast
  have "length (dropWhile (\<lambda>c. c \<noteq> NL) t) \<le> length t" by (rule length_dropWhile_le)
  then have "length (dropWhile (\<lambda>c. c \<noteq> NL) t) < length (NL # t)" by simp
  then show ?thesis by (subst findall.simps) (simp add: r group_def)
qed

lemma findall_skip_line:
  "findall LOG_ENTRY_FORMAT (dropWhile (\<lambda>c. c \<noteq> NL) t) = findall LOG_ENTRY_FORMAT t"
  by (induction t) (simp_all add: findall_other)

lemma rep_max_extend: "rep_max c hi s \<le> rep_max c hi (s @ x)"
proof -
  have "length (takeWhile (cls_ok c) s) \<le> length (takeWhile (cls_ok c) (s @ x))"
    by (induction s) simp_all
  then show ?thesis by (cases hi) (simp_all add: min.coboundedI2)
qed

lemma run_extend:
  "(g', s') \<in> set (run r (g, s)) \<Longrightarrow> (g', s' @ x) \<in> set (run r (g, s @ x))"
proof (induction r arbitrary: g s g' s')
  case (Str w)
  then have w: "take (length w) s = w" and s': "s' = drop (length w) s" and g': "g' = g"
    by (auto split: if_splits)
  have l: "length w \<le> length s"
  proof -
    have "length (take (length w) s) = length w" using w by simp
    then show ?thesis by simp
  qed
  then show ?case using w s' g' by simp
next
  case (One c)
  then show ?case by (cases s) (auto split: if_splits)
next
  case (Rep c lo hi)
  then have "\<exists>k. lo \<le> k \<and> k \<le> rep_max c hi s \<and> s' = drop k s \<and> g' = g"
    by (auto simp del: upt_Suc simp: less_Suc_eq_le)
  then obtain k where k: "lo \<le> k" "k \<le> rep_max c hi s" and s': "s' = drop k s" and g': "g' = g"
    by blast
  have "k \<le> length (takeWhile (cls_ok c) s)" using k(2) rep_max_le [of c hi s] by simp
  moreover have "length (takeWhile (cls_ok c) s) \<le> length s" by (rule length_takeWhile_le)
  ultimately have "k \<le> length s" by simp
  then have "s' @ x = drop k (s @ x)" using s' by simp
  moreover have "k \<le> rep_max c hi (s @ x)" using k(2) rep_max_extend [of c hi s x] by simp
  ultimately have "(g, s' @ x) \<in> (\<lambda>k. (g, drop k (s @ x))) ` {lo ..< Suc (rep_max c hi (s @ x))}"
    using k(1) by auto
  then show ?case using g' by (simp del: upt_Suc)
next
  case (Cat a b)
  from Cat.prems obtain g1 s1 where 1: "(g1, s1) \<in> set (run a (g, s))"
    and 2: "(g', s') \<in> set (run b (g1, s1))" by auto
  from Cat.IH(1) [OF 1] Cat.IH(2) [OF 2] show ?case by force
next
  case (Alt a b)
  from Alt.prems have "(g', s') \<in> set (run a (g, s)) \<or> (g', s') \<in> set (run b (g, s))" by simp
  then show ?case using Alt.IH by auto
next
  case (Group n r)
  from Group.prems obtain g1 where 1: "(g1, s') \<in> set (run r (g, s))"
    and g': "g' = (n, take (length s - length s') s) # g1" by auto
  from run_consumes [OF 1] obtain u where u: "s = u @ s'" by blast
  have "take (length (s @ x) - length (s' @ x)) (s @ x) = take (length s - length s') s"
    by (simp add: u)
  then show ?case using Group.IH [OF 1, of ] g' by force
qed auto

lemma marker_ok_extend: "marker_ok l \<Longrightarrow> marker_ok (l @ r)"
proof -
  assume "marker_ok l"
  then obtain y where "y \<in> set (run (seq MARKER) ([], l))"
    unfolding marker_ok_def by (cases "run (seq MARKER) ([], l)") auto
  then have "(fst y, snd y @ r) \<in> set (run (seq MARKER) ([], l @ r))"
    using run_extend [of "fst y" "snd y" "seq MARKER" "[]" l r] by simp
  then show ?thesis unfolding marker_ok_def by auto
qed

lemma run_restrict:
  "(g', s') \<in> set (run r (g, u @ s')) \<Longrightarrow> (g', []) \<in> set (run r (g, u))"
proof (induction r arbitrary: g u g' s')
  case (Str w)
  then have w: "take (length w) (u @ s') = w" and s': "s' = drop (length w) (u @ s')" and g': "g' = g"
    by (auto split: if_splits)
  have "length (take (length w) (u @ s')) = length w" using w by simp
  then have l: "length w \<le> length u + length s'" by simp
  have "length s' = length (drop (length w) (u @ s'))" by (rule arg_cong [OF s'])
  then have "length s' = length u + length s' - length w" by (simp only: length_drop length_append)
  then have "length w = length u" using l by arith
  then have "u = w" using w by simp
  then show ?case using g' by simp
next
  case (One c)
  then show ?case by (cases u) (auto split: if_splits)
next
  case (Rep c lo hi)
  then have "\<exists>k. lo \<le> k \<and> k \<le> rep_max c hi (u @ s') \<and> s' = drop k (u @ s') \<and> g' = g"
    by (auto simp del: upt_Suc simp: less_Suc_eq_le)
  then obtain k where k: "lo \<le> k" "k \<le> rep_max c hi (u @ s')" and s': "s' = drop k (u @ s')"
    and g': "g' = g" by blast
  have kt: "k \<le> length (takeWhile (cls_ok c) (u @ s'))" using k(2) rep_max_le [of c hi "u @ s'"] by simp
  moreover have "length (takeWhile (cls_ok c) (u @ s')) \<le> length (u @ s')" by (rule length_takeWhile_le)
  ultimately have "k \<le> length u + length s'" by simp
  moreover have "length s' = length (drop k (u @ s'))" by (rule arg_cong [OF s'])
  then have "length s' = length u + length s' - k" by (simp only: length_drop length_append)
  ultimately have ku: "k = length u" by arith
  have all: "\<forall>x \<in> set u. cls_ok c x"
  proof
    fix x assume "x \<in> set u"
    then obtain i where i: "i < length u" "u ! i = x" by (auto simp: in_set_conv_nth)
    then have "i < length (takeWhile (cls_ok c) (u @ s'))" using kt ku by simp
    from drop_in_run [OF this] have "cls_ok c ((u @ s') ! i)" by blast
    then show "cls_ok c x" using i by (simp add: nth_append)
  qed
  then have tw: "takeWhile (cls_ok c) u = u" by (simp add: takeWhile_eq_all_conv)
  have "k \<le> rep_max c hi u" using k(2) ku by (cases hi) (simp_all add: tw)
  then have "(g, drop k u) \<in> (\<lambda>k. (g, drop k u)) ` {lo ..< Suc (rep_max c hi u)}" using k(1) by auto
  then show ?case using g' ku by (simp del: upt_Suc)
next
  case (Cat a b)
  from Cat.prems obtain g1 s1 where 1: "(g1, s1) \<in> set (run a (g, u @ s'))"
    and 2: "(g', s') \<in> set (run b (g1, s1))" by auto
  from run_consumes [OF 1] obtain u1 where u1: "u @ s' = u1 @ s1" by blast
  from run_consumes [OF 2] obtain u2 where u2: "s1 = u2 @ s'" by blast
  have u: "u = u1 @ u2" using u1 u2 by simp
  have "(g1, s1) \<in> set (run a (g, u1 @ s1))" using 1 u1 by simp
  from Cat.IH(1) [OF this] have "(g1, []) \<in> set (run a (g, u1))" .
  from run_extend [OF this, of u2] have a: "(g1, u2) \<in> set (run a (g, u))" using u by simp
  have "(g', s') \<in> set (run b (g1, u2 @ s'))" using 2 u2 by simp
  from Cat.IH(2) [OF this] have "(g', []) \<in> set (run b (g1, u2))" .
  with a show ?case by force
next
  case (Alt a b)
  from Alt.prems have "(g', s') \<in> set (run a (g, u @ s')) \<or> (g', s') \<in> set (run b (g, u @ s'))"
    by simp
  then show ?case using Alt.IH by auto
next
  case (Group n r)
  from Group.prems obtain g1 where 1: "(g1, s') \<in> set (run r (g, u @ s'))"
    and g': "g' = (n, take (length (u @ s') - length s') (u @ s')) # g1" by auto
  from Group.IH [OF 1] have "(g1, []) \<in> set (run r (g, u))" .
  then show ?case using g' by force
qed auto

lemma marker_ok_line: "marker_ok (takeWhile (\<lambda>c. c \<noteq> NL) t) = marker_ok t"
proof
  assume "marker_ok (takeWhile (\<lambda>c. c \<noteq> NL) t)"
  from marker_ok_extend [OF this, of "dropWhile (\<lambda>c. c \<noteq> NL) t"] show "marker_ok t" by simp
next
  assume m: "marker_ok t"
  then have "([], drop 11 t) \<in> set (run (seq MARKER) ([], take 11 t @ drop 11 t))"
    by (simp add: run_MARKER)
  from run_restrict [OF this] have "marker_ok (take 11 t)" by (auto simp: marker_ok_def)
  from marker_ok_extend [OF this] show "marker_ok (takeWhile (\<lambda>c. c \<noteq> NL) t)"
    by (simp only: marker_line(1) [OF m])
qed

lemma split_nl_not_Nil: "split_nl s \<noteq> []"
  by (induction s) (auto split: list.split)

lemma hd_split_nl: "hd (split_nl s) = takeWhile (\<lambda>c. c \<noteq> NL) s"
  by (induction s) (auto split: list.split simp: split_nl_not_Nil)

lemma tl_split_nl_other: "c \<noteq> NL \<Longrightarrow> tl (split_nl (c # s)) = tl (split_nl s)"
  by (auto split: list.split simp: split_nl_not_Nil)

lemma split_nl_lines: "l \<in> set (split_nl s) \<Longrightarrow> NL \<notin> set l"
  by (induction s arbitrary: l) (auto split: list.splits if_splits)

lemma findall_first_line:
  "NL \<notin> set first \<Longrightarrow> findall LOG_ENTRY_FORMAT (first @ rest) = findall LOG_ENTRY_FORMAT rest"
  by (induction first) (auto simp: findall_other)

section \<open>Facts about file names, dates and the loop over the files\<close>

lemma lex_append_same_length:
  fixes xs ys :: "'a::linorder list"
  assumes "xs < ys" and "length xs = length ys"
  shows "xs @ u < ys @ v"
  using assms(2,1)
proof (induction xs ys rule: list_induct2)
  case Nil
  then show ?case by simp
next
  case (Cons x xs y ys)
  then show ?case by auto
qed

lemma lex_append_same: 
  fixes xs :: "'a::linorder list"
  shows "xs @ u < xs @ v \<longleftrightarrow> u < v"
  by (induction xs) simp_all

lemma digit_val_less:
  assumes "is_digit a" and "is_digit b"
  shows "digit_val a < digit_val b \<longleftrightarrow> a < b" and "digit_val a = digit_val b \<longleftrightarrow> a = b"
    and "digit_val a \<le> 9"
proof -
  have a: "48 \<le> (of_char a :: nat)" "(of_char a :: nat) \<le> 57"
    and b: "48 \<le> (of_char b :: nat)" "(of_char b :: nat) \<le> 57"
    using assms by (simp_all add: is_digit_def Let_def)
  show "digit_val a < digit_val b \<longleftrightarrow> a < b"
    using a b by (auto simp: digit_val_def less_char_def)
  show "digit_val a = digit_val b \<longleftrightarrow> a = b"
  proof
    assume "digit_val a = digit_val b"
    then have "(of_char a :: nat) = of_char b" using a b unfolding digit_val_def by arith
    then show "a = b" by simp
  qed simp
  show "digit_val a \<le> 9" using a by (simp add: digit_val_def)
qed

lemma to_nat_snoc: "to_nat (xs @ [c]) = 10 * to_nat xs + digit_val c"
  by (simp add: to_nat_def)


lemma snoc_induct2 [consumes 1, case_names Nil snoc]:
  assumes "length xs = length ys" and "P [] []"
    and "\<And>x xs y ys. length xs = length ys \<Longrightarrow> P xs ys \<Longrightarrow> P (xs @ [x]) (ys @ [y])"
  shows "P xs ys"
  using assms(1)
proof (induction xs arbitrary: ys rule: rev_induct)
  case Nil
  then show ?case using assms(2) by simp
next
  case (snoc x xs)
  then obtain y ys' where ys: "ys = ys' @ [y]" by (cases ys rule: rev_cases) auto
  then have "length xs = length ys'" using snoc.prems by simp
  then show ?case using snoc.IH assms(3) ys by blast
qed

text \<open>For digit strings of one length the order of the strings is the order of the numbers.\<close>

lemma digits_order:
  assumes "length xs = length ys" and "list_all is_digit xs" and "list_all is_digit ys"
  shows "(to_nat xs < to_nat ys \<longleftrightarrow> xs < ys) \<and> (to_nat xs = to_nat ys \<longleftrightarrow> xs = ys)"
  using assms
proof (induction xs ys rule: snoc_induct2)
  case Nil
  show ?case by (simp add: to_nat_def)
next
  case (snoc x xs y ys)
  then have IH: "to_nat xs < to_nat ys \<longleftrightarrow> xs < ys" "to_nat xs = to_nat ys \<longleftrightarrow> xs = ys"
    and x: "is_digit x" and y: "is_digit y" by simp_all
  have dx: "digit_val x \<le> 9" and dy: "digit_val y \<le> 9"
    using digit_val_less(3) x y by blast+
  have lt: "xs @ [x] < ys @ [y] \<longleftrightarrow> xs < ys \<or> (xs = ys \<and> x < y)"
  proof (cases "xs = ys")
    case True
    then show ?thesis by (simp add: lex_append_same)
  next
    case False
    have "xs < ys \<Longrightarrow> xs @ [x] < ys @ [y]"
      using snoc.hyps by (rule lex_append_same_length [rotated])
    moreover have "\<not> xs < ys \<Longrightarrow> \<not> xs @ [x] < ys @ [y]"
    proof -
      assume "\<not> xs < ys"
      then have "ys < xs" using False by simp
      then have "ys @ [y] < xs @ [x]" using snoc.hyps by (intro lex_append_same_length) simp_all
      then show ?thesis by simp
    qed
    ultimately show ?thesis using False by blast
  qed
  have "to_nat (xs @ [x]) < to_nat (ys @ [y]) \<longleftrightarrow>
          to_nat xs < to_nat ys \<or> (to_nat xs = to_nat ys \<and> digit_val x < digit_val y)"
    unfolding to_nat_snoc using dx dy by arith
  moreover have "to_nat (xs @ [x]) = to_nat (ys @ [y]) \<longleftrightarrow>
          to_nat xs = to_nat ys \<and> digit_val x = digit_val y"
    unfolding to_nat_snoc using dx dy by arith
  ultimately show ?case
    using IH lt digit_val_less(1,2) [OF x y] by simp
qed


lemma date_shape:
  assumes "date_fromisoformat s = Inr (Date y m d)"
  obtains ys ms ds where "s = ys @ ''-'' @ ms @ ''-'' @ ds"
    and "length ys = 4" "length ms = 2" "length ds = 2"
    and "list_all is_digit ys" "list_all is_digit ms" "list_all is_digit ds"
    and "y = to_nat ys" "m = to_nat ms" "d = to_nat ds"
proof -
  from assms obtain y1 y2 y3 y4 m1 m2 d1 d2 where
    s: "s = [y1, y2, y3, y4, CHR ''-'', m1, m2, CHR ''-'', d1, d2]"
    and dg: "list_all is_digit [y1, y2, y3, y4, m1, m2, d1, d2]"
    and v: "y = to_nat [y1, y2, y3, y4]" "m = to_nat [m1, m2]" "d = to_nat [d1, d2]"
    by (rule date_fromisoformat.elims) (auto simp: Let_def split: if_splits)
  show ?thesis
    by (rule that [of "[y1, y2, y3, y4]" "[m1, m2]" "[d1, d2]"]) (use s dg v in simp_all)
qed

lemma date_order_strings:
  assumes "date_fromisoformat a = Inr da" and "date_fromisoformat b = Inr db"
    and "date_less da db"
  shows "a < b" and "length a = length b"
proof -
  obtain y m d where da: "da = Date y m d" by (cases da)
  obtain y' m' d' where db: "db = Date y' m' d'" by (cases db)
  from assms(1) da obtain ys ms ds where a: "a = ys @ ''-'' @ ms @ ''-'' @ ds"
    and la: "length ys = 4" "length ms = 2" "length ds = 2"
    and ga: "list_all is_digit ys" "list_all is_digit ms" "list_all is_digit ds"
    and va: "y = to_nat ys" "m = to_nat ms" "d = to_nat ds"
    by (auto elim: date_shape)
  from assms(2) db obtain ys' ms' ds' where b: "b = ys' @ ''-'' @ ms' @ ''-'' @ ds'"
    and lb: "length ys' = 4" "length ms' = 2" "length ds' = 2"
    and gb: "list_all is_digit ys'" "list_all is_digit ms'" "list_all is_digit ds'"
    and vb: "y' = to_nat ys'" "m' = to_nat ms'" "d' = to_nat ds'"
    by (auto elim: date_shape)
  show "length a = length b" using a b la lb by simp
  have oy: "(y < y' \<longleftrightarrow> ys < ys') \<and> (y = y' \<longleftrightarrow> ys = ys')"
    unfolding va vb by (rule digits_order) (use la lb ga gb in simp_all)
  have om: "(m < m' \<longleftrightarrow> ms < ms') \<and> (m = m' \<longleftrightarrow> ms = ms')"
    unfolding va vb by (rule digits_order) (use la lb ga gb in simp_all)
  have od: "(d < d' \<longleftrightarrow> ds < ds') \<and> (d = d' \<longleftrightarrow> ds = ds')"
    unfolding va vb by (rule digits_order) (use la lb ga gb in simp_all)
  from assms(3) da db consider "y < y'" | "y = y'" "m < m'" | "y = y'" "m = m'" "d < d'"
    by auto
  then show "a < b"
  proof cases
    case 1
    then have "ys < ys'" using oy by simp
    then show ?thesis unfolding a b using la lb by (intro lex_append_same_length) simp_all
  next
    case 2
    then have "ys = ys'" and "ms < ms'" using oy om by simp_all
    then have "ms @ ''-'' @ ds < ms' @ ''-'' @ ds'"
      using la lb by (intro lex_append_same_length) simp_all
    then show ?thesis unfolding a b using \<open>ys = ys'\<close> by (simp add: lex_append_same)
  next
    case 3
    then have "ys = ys'" and "ms = ms'" and "ds < ds'" using oy om od by simp_all
    then show ?thesis unfolding a b by (simp add: lex_append_same)
  qed
qed

lemma fullmatch_in_run:
  assumes "fullmatch r s = Some m"
  shows "(m, []) \<in> set (run r ([], s))"
proof -
  from assms obtain s' rest where f: "filter (\<lambda>(g, s'). s' = []) (run r ([], s)) = (m, s') # rest"
    by (auto simp: fullmatch_def split: list.splits)
  then have "(m, s') \<in> set (filter (\<lambda>(g, s'). s' = []) (run r ([], s)))" by simp
  then show ?thesis by auto
qed

lemma filename_date:
  assumes "fullmatch LOG_FILENAME_FORMAT f = Some m"
  shows "group m ''date'' = take 10 f" and "10 \<le> length f"
proof -
  let ?D = "seq [Rep Digit 4 (Some 4), Str ''-'', Rep Digit 2 (Some 2), Str ''-'', Rep Digit 2 (Some 2)]"
  let ?R = "seq [Str ''-'', Rep Digit 1 None, Str ''.log.gz'']"
  have w: "width ?D = Some 10" and g: "gnames ?D = {}" by simp_all
  from fullmatch_in_run [OF assms] obtain s' where "(m, s') \<in> set (run LOG_FILENAME_FORMAT ([], f))"
    by blast
  then have "(m, s') \<in> set (run (Cat (Group ''date'' ?D) ?R) ([], f))"
    by (simp add: LOG_FILENAME_FORMAT_def del: run.simps)
  then obtain g1 s1 where 1: "(g1, s1) \<in> set (run (Group ''date'' ?D) ([], f))"
    and 2: "(m, s') \<in> set (run ?R (g1, s1))"
    by (auto simp del: run.simps(2-4,6,7) seq.simps)
  from 1 have ne: "run ?D ([], f) \<noteq> []" and g1: "g1 = [(''date'', take 10 f)]"
    by (simp_all add: run_Group_plain [OF w g] del: run.simps seq.simps split: if_splits)
  from run_plain_length [OF w ne] show "10 \<le> length f" .
  have "''date'' \<notin> gnames ?R" by simp
  from run_keeps_group [OF 2 this] show "group m ''date'' = take 10 f"
    by (simp add: group_def g1)
qed

lemma filename_order:
  assumes "fullmatch LOG_FILENAME_FORMAT f1 = Some m1" and "fullmatch LOG_FILENAME_FORMAT f2 = Some m2"
    and "date_fromisoformat (group m1 ''date'') = Inr d1"
    and "date_fromisoformat (group m2 ''date'') = Inr d2"
    and "date_less d1 d2"
  shows "f1 < f2"
proof -
  have a: "date_fromisoformat (take 10 f1) = Inr d1" using assms(1,3) by (simp add: filename_date)
  have b: "date_fromisoformat (take 10 f2) = Inr d2" using assms(2,4) by (simp add: filename_date)
  have "take 10 f1 @ drop 10 f1 < take 10 f2 @ drop 10 f2"
    using date_order_strings [OF a b assms(5)] by (rule lex_append_same_length)
  then show ?thesis by simp
qed

lemma collect_acc:
  "collect d es evs = (fst (collect d es []), evs @ snd (collect d es []))"
proof (induction es arbitrary: evs)
  case Nil
  show ?case by simp
next
  case (Cons e es)
  show ?case
  proof (cases "classify d e")
    case (Inl x)
    then show ?thesis by simp
  next
    case (Inr r)
    show ?thesis
    proof (cases r)
      case None
      then show ?thesis using Inr Cons.IH [of evs] by simp
    next
      case (Some ev)
      have "collect d es (evs @ [ev]) = (fst (collect d es []), (evs @ [ev]) @ snd (collect d es []))"
        by (rule Cons.IH)
      moreover have "collect d es [ev] = (fst (collect d es []), [ev] @ snd (collect d es []))"
        by (rule Cons.IH)
      ultimately show ?thesis using Inr Some by simp
    qed
  qed
qed

lemma process_success:
  "process w fs (evs, st) = (None, evs', st') \<Longrightarrow> evs' = evs @ concat (map (source_events w) fs)"
proof (induction fs arbitrary: evs st)
  case Nil
  then show ?case by simp
next
  case (Cons f fs)
  from Cons.prems obtain m log_date path log evs1 where
    m: "fullmatch LOG_FILENAME_FORMAT f = Some m"
    and d: "date_fromisoformat (group m ''date'') = Inr log_date"
    and p: "os_path_join (LOG_DIRECTORY w) f = Inr path"
    and l: "gzip_text w path = Inr log"
    and c: "collect log_date (findall LOG_ENTRY_FORMAT log) evs = (None, evs1)"
    and r: "process w fs (evs1, export evs1 st) = (None, evs', st')"
    by (auto split: option.splits sum.splits prod.splits)
  have "evs1 = evs @ snd (collect log_date (findall LOG_ENTRY_FORMAT log) [])"
    using c collect_acc [of log_date "findall LOG_ENTRY_FORMAT log" evs] by simp
  then have "evs1 = evs @ source_events w f" using m d p l by (simp add: source_events_def)
  moreover from Cons.IH [OF r] have "evs' = evs1 @ concat (map (source_events w) fs)" .
  ultimately show ?case by simp
qed

lemma sorted_split:
  fixes a :: "'a::linorder"
  assumes "sorted xs" and "a \<in> set xs" and "b \<in> set xs" and "a < b"
  shows "\<exists>A B C. xs = A @ a # B @ b # C"
proof -
  from split_list_first [OF assms(2)] obtain A R where xs: "xs = A @ a # R" and "a \<notin> set A"
    by blast
  have "b \<notin> set A"
  proof
    assume "b \<in> set A"
    then have "b \<le> a" using assms(1) xs by (auto simp: sorted_append)
    then show False using assms(4) by simp
  qed
  then have "b \<in> set R" using assms(3,4) xs by auto
  from split_list [OF this] obtain B C where "R = B @ b # C" by blast
  then show ?thesis using xs by blast
qed

lemma process_prefix:
  "process w fs (evs, st) = (r, evs', st') \<Longrightarrow>
     \<exists>k \<le> length fs. evs' = evs @ concat (map (source_events w) (take k fs))"
proof (induction fs arbitrary: evs st)
  case Nil
  then show ?case by simp
next
  case (Cons f fs)
  let ?stop = "\<exists>k \<le> length (f # fs). evs' = evs @ concat (map (source_events w) (take k (f # fs)))"
  have zero: ?stop if "evs' = evs"
    using that by (intro exI [of _ 0]) simp
  show ?case
  proof (cases "fullmatch LOG_FILENAME_FORMAT f")
    case None
    then show ?thesis using Cons.prems zero by simp
  next
    case (Some m)
    show ?thesis
    proof (cases "date_fromisoformat (group m ''date'')")
      case (Inl e)
      then show ?thesis using Cons.prems Some zero by simp
    next
      case d: (Inr log_date)
      show ?thesis
      proof (cases "os_path_join (LOG_DIRECTORY w) f")
        case (Inl e)
        then show ?thesis using Cons.prems Some d zero by simp
      next
        case p: (Inr path)
        show ?thesis
        proof (cases "gzip_text w path")
          case (Inl e)
          then show ?thesis using Cons.prems Some d p zero by simp
        next
          case l: (Inr log)
          obtain x evs1 where c: "collect log_date (findall LOG_ENTRY_FORMAT log) evs = (x, evs1)"
            by (cases "collect log_date (findall LOG_ENTRY_FORMAT log) evs")
          have "evs1 = evs @ snd (collect log_date (findall LOG_ENTRY_FORMAT log) [])"
            using c collect_acc [of log_date "findall LOG_ENTRY_FORMAT log" evs] by simp
          then have evs1: "evs1 = evs @ source_events w f"
            using Some d p l by (simp add: source_events_def)
          show ?thesis
          proof (cases x)
            case (Some e)
            then have "evs' = evs1" using Cons.prems \<open>fullmatch LOG_FILENAME_FORMAT f = Some m\<close> d p l c
              by simp
            then have "evs' = evs @ concat (map (source_events w) (take 1 (f # fs)))"
              using evs1 by simp
            then show ?thesis by (intro exI [of _ 1]) simp
          next
            case None
            then have "process w fs (evs1, export evs1 st) = (r, evs', st')"
              using Cons.prems \<open>fullmatch LOG_FILENAME_FORMAT f = Some m\<close> d p l c by simp
            from Cons.IH [OF this] obtain k where k: "k \<le> length fs"
              and "evs' = evs1 @ concat (map (source_events w) (take k fs))" by blast
            then have "evs' = evs @ concat (map (source_events w) (take (Suc k) (f # fs)))"
              using evs1 by simp
            then show ?thesis using k by (intro exI [of _ "Suc k"]) simp
          qed
        qed
      qed
    qed
  qed
qed

lemma process_append:
  "process w done (evs0, st0) = (None, evs, st1) \<Longrightarrow>
     process w (done @ fs) (evs0, st0) = process w fs (evs, st1)"
proof (induction "done" arbitrary: evs0 st0)
  case Nil
  then show ?case by simp
next
  case (Cons f rest)
  from Cons.prems obtain m log_date path log evs1 where
    m: "fullmatch LOG_FILENAME_FORMAT f = Some m"
    and d: "date_fromisoformat (group m ''date'') = Inr log_date"
    and p: "os_path_join (LOG_DIRECTORY w) f = Inr path"
    and l: "gzip_text w path = Inr log"
    and c: "collect log_date (findall LOG_ENTRY_FORMAT log) evs0 = (None, evs1)"
    and r: "process w rest (evs1, export evs1 st0) = (None, evs, st1)"
    by (auto split: option.splits sum.splits prod.splits)
  from Cons.IH [OF r] show ?case using m d p l c by simp
qed

section \<open>An entry with an invalid time\<close>

lemma invalid_time_classify:
  assumes "match P e = Some m" and "P \<in> entry_patterns"
      and "time_fromisoformat (group m ''time'') = Inl ValueError"
      and "\<not> denylisted e"
      and "collect d before evs = (None, evs')"
  shows "classify d e = Inl ValueError
         \<and> collect d (before @ e # after) evs = (Some ValueError, evs')"
proof -
  have bad: "stamp d m' = Inl ValueError" if "match Q e = Some m'" and "Q \<in> entry_patterns" for Q m'
  proof -
    have "group m' ''time'' = group m ''time''"
      using time_group [OF that] time_group [OF assms(1,2)] by simp
    then show ?thesis using assms(3) by (simp add: stamp_def)
  qed
  have five: "JOIN_FORMAT \<in> entry_patterns" "LEAVE_FORMAT \<in> entry_patterns"
    "ADVANCEMENT_FORMAT \<in> entry_patterns" "DEATH_FORMAT \<in> entry_patterns"
    "MESSAGE_FORMAT \<in> entry_patterns"
    by (simp_all add: entry_patterns_def)
  have some: "match JOIN_FORMAT e \<noteq> None \<or> match LEAVE_FORMAT e \<noteq> None
      \<or> match ADVANCEMENT_FORMAT e \<noteq> None \<or> match DEATH_FORMAT e \<noteq> None
      \<or> match MESSAGE_FORMAT e \<noteq> None"
    using assms(1,2) by (auto simp: entry_patterns_def)
  have c: "classify d e = Inl ValueError"
  proof (cases "match JOIN_FORMAT e")
    case (Some j)
    then show ?thesis using bad [OF Some five(1)] by (simp add: classify_def)
  next
    case nj: None
    show ?thesis
    proof (cases "match LEAVE_FORMAT e")
      case (Some l)
      then show ?thesis using nj bad [OF Some five(2)] by (simp add: classify_def)
    next
      case nl: None
      show ?thesis
      proof (cases "match ADVANCEMENT_FORMAT e")
        case (Some a)
        then show ?thesis using nj nl bad [OF Some five(3)] by (simp add: classify_def)
      next
        case na: None
        show ?thesis
        proof (cases "match DEATH_FORMAT e")
          case (Some x)
          then have "group x ''player'' \<notin> set NOT_PLAYERS"
            using assms(4) nj nl na by (simp add: denylisted_def)
          then show ?thesis using nj nl na Some bad [OF Some five(4)]
            by (simp add: classify_def)
        next
          case nd: None
          then obtain x where x: "match MESSAGE_FORMAT e = Some x"
            using some nj nl na by auto
          then show ?thesis using nj nl na nd bad [OF x five(5)] by (simp add: classify_def)
        qed
      qed
    qed
  qed
  have "collect d (before @ e # after) evs = collect d (e # after) evs'"
    using assms(5) by (rule collect_append)
  then show ?thesis using c by simp
qed

text \<open>
  C1, as the code has it. Let one of the five patterns match an entry, with a time group
  that is not a valid time of day, and let the entry not be one that the denylist drops
  (those are dropped before their time is parsed). Then classification raises
  \<^verbatim>\<open>ValueError\<close> and emits no event; nothing catches the exception, so the loop over the
  entries ends there, with the event stream as it was before this entry, and the entries
  after it are not processed; the pass for the file that holds the entry ends with that
  exception before its export, and so does the run, with the output as the files before
  it left it.
\<close>

theorem invalid_time_raises:
  assumes "match P e = Some m" and "P \<in> entry_patterns"
      and "time_fromisoformat (group m ''time'') = Inl ValueError"
      and "\<not> denylisted e"
      and "collect d before evs = (None, evs')"
  shows "classify d e = Inl ValueError
       \<and> collect d (before @ e # after) evs = (Some ValueError, evs')
       \<and> (\<forall>w f fm path log rest st.
             fullmatch LOG_FILENAME_FORMAT f = Some fm
             \<and> date_fromisoformat (group fm ''date'') = Inr d
             \<and> os_path_join (LOG_DIRECTORY w) f = Inr path
             \<and> gzip_text w path = Inr log
             \<and> findall LOG_ENTRY_FORMAT log = before @ e # after
             \<longrightarrow> process w (f # rest) (evs, st) = (Some ValueError, evs', st))
       \<and> (\<forall>w names earlier f fm path log rest st st1.
             os_listdir w (LOG_DIRECTORY w) = Inr names
             \<and> log_files names = earlier @ f # rest
             \<and> process w earlier ([], st) = (None, evs, st1)
             \<and> fullmatch LOG_FILENAME_FORMAT f = Some fm
             \<and> date_fromisoformat (group fm ''date'') = Inr d
             \<and> os_path_join (LOG_DIRECTORY w) f = Inr path
             \<and> gzip_text w path = Inr log
             \<and> findall LOG_ENTRY_FORMAT log = before @ e # after
             \<longrightarrow> main w st = (Some ValueError, evs', st1))"
proof -
  have c: "classify d e = Inl ValueError"
    and l: "collect d (before @ e # after) evs = (Some ValueError, evs')"
    using invalid_time_classify [OF assms, of after] by simp_all
  have p: "process w (f # rest) (evs, st) = (Some ValueError, evs', st)"
    if "fullmatch LOG_FILENAME_FORMAT f = Some fm"
      and "date_fromisoformat (group fm ''date'') = Inr d"
      and "os_path_join (LOG_DIRECTORY w) f = Inr path"
      and "gzip_text w path = Inr log"
      and "findall LOG_ENTRY_FORMAT log = before @ e # after"
    for w f fm path log rest st
    using that l by simp
  have "main w st = (Some ValueError, evs', st1)"
    if "os_listdir w (LOG_DIRECTORY w) = Inr names"
      and "log_files names = earlier @ f # rest"
      and "process w earlier ([], st) = (None, evs, st1)"
      and "fullmatch LOG_FILENAME_FORMAT f = Some fm"
      and "date_fromisoformat (group fm ''date'') = Inr d"
      and "os_path_join (LOG_DIRECTORY w) f = Inr path"
      and "gzip_text w path = Inr log"
      and "findall LOG_ENTRY_FORMAT log = before @ e # after"
    for w names earlier f fm path log rest st st1
  proof -
    have "main w st = process w (earlier @ f # rest) ([], st)"
      using that(1,2) by (simp add: main_def)
    also have "\<dots> = process w (f # rest) (evs, st1)"
      using that(3) by (rule process_append)
    also have "\<dots> = (Some ValueError, evs', st1)"
      using that(4-8) by (rule p)
    finally show ?thesis .
  qed
  with c l p show ?thesis by blast
qed

theorem invalid_time_raises_witness:
  "match JOIN_FORMAT ''[25:00:00] [Server thread/INFO] [net.minecraft.server.dedicated.DedicatedServer]: Steve joined the game''
     = Some [(''player'', ''Steve''), (''time'', ''25:00:00'')]
   \<and> time_fromisoformat ''25:00:00'' = Inl ValueError
   \<and> classify (Date 2024 3 5)
        ''[25:00:00] [Server thread/INFO] [net.minecraft.server.dedicated.DedicatedServer]: Steve joined the game''
       = Inl ValueError
   \<and> collect (Date 2024 3 5)
        [''[25:00:00] [Server thread/INFO] [net.minecraft.server.dedicated.DedicatedServer]: Steve joined the game'',
         ''[14:22:01] [Server thread/INFO] [net.minecraft.server.dedicated.DedicatedServer]: Alex joined the game''] []
       = (Some ValueError, [])
   \<and> main bad_time \<lparr>output_dir = False, files = Map.empty\<rparr>
       = (Some ValueError, [], \<lparr>output_dir = False, files = Map.empty\<rparr>)"
proof -
  let ?e = "''[25:00:00] [Server thread/INFO] [net.minecraft.server.dedicated.DedicatedServer]: Steve joined the game''"
  let ?e2 = "''[14:22:01] [Server thread/INFO] [net.minecraft.server.dedicated.DedicatedServer]: Alex joined the game''"
  let ?f = "''2024-03-05-1.log.gz''"
  let ?st = "\<lparr>output_dir = False, files = Map.empty\<rparr>"
  have m: "match JOIN_FORMAT ?e = Some [(''player'', ''Steve''), (''time'', ''25:00:00'')]"
    by code_simp
  have p: "JOIN_FORMAT \<in> entry_patterns" by (simp add: entry_patterns_def)
  have t: "time_fromisoformat (group [(''player'', ''Steve''), (''time'', ''25:00:00'')] ''time'') = Inl ValueError"
    by code_simp
  have n: "\<not> denylisted ?e" using m by (simp add: denylisted_def)
  have b: "collect (Date 2024 3 5) [] [] = (None, [])" by simp
  have t': "time_fromisoformat ''25:00:00'' = Inl ValueError" using t by (simp add: group_def)
  note inst = invalid_time_raises [OF m p t n b, of "[?e2]"]
  have l: "os_listdir bad_time (LOG_DIRECTORY bad_time) = Inr [?f]"
    by (simp add: os_listdir_def bad_time_def)
  have lf: "log_files [?f] = [] @ ?f # []" by code_simp
  have pr: "process bad_time [] ([], ?st) = (None, [], ?st)" by simp
  have fm: "fullmatch LOG_FILENAME_FORMAT ?f = Some [(''date'', ''2024-03-05'')]" by code_simp
  have dd: "date_fromisoformat (group [(''date'', ''2024-03-05'')] ''date'') = Inr (Date 2024 3 5)"
    by code_simp
  have pj: "os_path_join (LOG_DIRECTORY bad_time) ?f = Inr ''logs/2024-03-05-1.log.gz''"
    by (simp add: os_path_join_def bad_time_def)
  have gz: "gzip_text bad_time ''logs/2024-03-05-1.log.gz'' = Inr (NL # ?e @ NL # ?e2)"
    by (simp add: bad_time_def)
  have fa: "findall LOG_ENTRY_FORMAT (NL # ?e @ NL # ?e2) = [] @ ?e # [?e2]" by code_simp
  have "\<forall>w names earlier f fm path log rest st st1.
             os_listdir w (LOG_DIRECTORY w) = Inr names
             \<and> log_files names = earlier @ f # rest
             \<and> process w earlier ([], st) = (None, [], st1)
             \<and> fullmatch LOG_FILENAME_FORMAT f = Some fm
             \<and> date_fromisoformat (group fm ''date'') = Inr (Date 2024 3 5)
             \<and> os_path_join (LOG_DIRECTORY w) f = Inr path
             \<and> gzip_text w path = Inr log
             \<and> findall LOG_ENTRY_FORMAT log = [] @ ?e # [?e2]
             \<longrightarrow> main w st = (Some ValueError, [], st1)"
    by (rule conjunct2 [OF conjunct2 [OF conjunct2 [OF inst]]])
  then have run: "main bad_time ?st = (Some ValueError, [], ?st)"
    using l lf pr fm dd pj gz fa by blast
  from inst m t' run show ?thesis by simp
qed

text \<open>
  The claim as written fails on a join line with hour 25: classification raises instead
  of rejecting the entry quietly, and the valid join line after it, which alone gives an
  event, is never reached.
\<close>

theorem invalid_time_counterexample:
  "classify (Date 2024 3 5)
     ''[25:00:00] [Server thread/INFO] [net.minecraft.server.dedicated.DedicatedServer]: Steve joined the game''
     = Inl ValueError
   \<and> collect (Date 2024 3 5)
        [''[25:00:00] [Server thread/INFO] [net.minecraft.server.dedicated.DedicatedServer]: Steve joined the game'',
         ''[14:22:01] [Server thread/INFO] [net.minecraft.server.dedicated.DedicatedServer]: Alex joined the game''] []
       = (Some ValueError, [])
   \<and> collect (Date 2024 3 5)
        [''[14:22:01] [Server thread/INFO] [net.minecraft.server.dedicated.DedicatedServer]: Alex joined the game''] []
       = (None, [PlayerJoinLeave (Datetime (Date 2024 3 5) (Time 14 22 1)) ''Alex'' ''join''])"
  by code_simp


section \<open>Entries and physical lines\<close>

text \<open>
  C2, as the code has it. The entries that \<^verbatim>\<open>findall\<close> gives for a decoded text are exactly
  its physical lines, other than the first, that begin with the marker \<^verbatim>\<open>[dd:dd:dd]\<close> and a
  space, in their order. Each entry is one physical line: the pattern's \<^verbatim>\<open>.*\<close> stops at the
  newline, so the lines that follow a marked line and do not begin with the marker belong
  to no entry.
\<close>

theorem entries_are_marked_lines:
  "findall LOG_ENTRY_FORMAT log = filter marker_ok (tl (split_nl log))"
proof (induction log)
  case Nil
  show ?case by (simp add: findall_Nil)
next
  case (Cons c s)
  show ?case
  proof (cases "c = NL")
    case False
    then show ?thesis using Cons.IH
      by (simp add: findall_other tl_split_nl_other del: split_nl.simps)
  next
    case True
    have split: "split_nl s = takeWhile (\<lambda>c. c \<noteq> NL) s # tl (split_nl s)"
      using split_nl_not_Nil [of s] hd_split_nl [of s] by (cases "split_nl s") simp_all
    have tl: "tl (split_nl (c # s)) = split_nl s" using True by simp
    show ?thesis
    proof (cases "marker_ok s")
      case m: True
      have "findall LOG_ENTRY_FORMAT (c # s)
              = takeWhile (\<lambda>c. c \<noteq> NL) s # findall LOG_ENTRY_FORMAT s"
        using True findall_marker [OF m] by (simp only: findall_skip_line)
      also have "\<dots> = takeWhile (\<lambda>c. c \<noteq> NL) s # filter marker_ok (tl (split_nl s))"
        by (simp only: Cons.IH)
      also have "\<dots> = filter marker_ok (takeWhile (\<lambda>c. c \<noteq> NL) s # tl (split_nl s))"
        using m by (simp add: marker_ok_line)
      finally show ?thesis by (simp only: tl split [symmetric])
    next
      case m: False
      have "findall LOG_ENTRY_FORMAT (c # s) = findall LOG_ENTRY_FORMAT s"
        using True findall_no_marker [OF m] by simp
      also have "\<dots> = filter marker_ok (tl (split_nl s))" by (rule Cons.IH)
      also have "\<dots> = filter marker_ok (takeWhile (\<lambda>c. c \<noteq> NL) s # tl (split_nl s))"
        using m by (simp add: marker_ok_line)
      finally show ?thesis by (simp only: tl split [symmetric])
    qed
  qed
qed

text \<open>
  The claim as written fails on a stack trace: the line after the entry of 12:00:00 is not
  kept as part of that entry, as the specification's reading of the splitting would have
  it, but is lost.
\<close>

theorem continuation_lines_counterexample:
  "findall LOG_ENTRY_FORMAT ([NL] @ ''[12:00:00] oops'' @ [NL] @ ''  at Foo.bar'' @ [NL] @ ''[12:00:01] next'')
     = [''[12:00:00] oops'', ''[12:00:01] next'']
   \<and> spec_entries ([NL] @ ''[12:00:00] oops'' @ [NL] @ ''  at Foo.bar'' @ [NL] @ ''[12:00:01] next'')
     = [''[12:00:00] oops'' @ [NL] @ ''  at Foo.bar'', ''[12:00:01] next'']
   \<and> findall LOG_ENTRY_FORMAT ([NL] @ ''[12:00:00] oops'' @ [NL] @ ''  at Foo.bar'' @ [NL] @ ''[12:00:01] next'')
     \<noteq> spec_entries ([NL] @ ''[12:00:00] oops'' @ [NL] @ ''  at Foo.bar'' @ [NL] @ ''[12:00:01] next'')"
  by code_simp

section \<open>The denylist\<close>

text \<open>
  C4, as the code has it. For every entry that the join, leave and advancement patterns
  do not match and whose leading token, the player group of the death pattern's match, is
  in the denylist, classification gives no event (and raises nothing, whatever the time
  field holds), although the death pattern matches the entry.
\<close>

theorem denylisted_entry_dropped:
  assumes "match JOIN_FORMAT e = None" and "match LEAVE_FORMAT e = None"
      and "match ADVANCEMENT_FORMAT e = None"
      and "match DEATH_FORMAT e = Some m" and "group m ''player'' \<in> set NOT_PLAYERS"
  shows "classify d e = Inr None"
  using assms by (simp add: classify_def)

theorem denylisted_entry_dropped_witness:
  "match JOIN_FORMAT ''[14:22:01] [Server thread/INFO] [net.minecraft.server.dedicated.DedicatedServer]: Loading dimension data'' = None
   \<and> match LEAVE_FORMAT ''[14:22:01] [Server thread/INFO] [net.minecraft.server.dedicated.DedicatedServer]: Loading dimension data'' = None
   \<and> match ADVANCEMENT_FORMAT ''[14:22:01] [Server thread/INFO] [net.minecraft.server.dedicated.DedicatedServer]: Loading dimension data'' = None
   \<and> match DEATH_FORMAT ''[14:22:01] [Server thread/INFO] [net.minecraft.server.dedicated.DedicatedServer]: Loading dimension data''
       = Some [(''cause'', ''dimension data''), (''player'', ''Loading''), (''time'', ''14:22:01'')]
   \<and> ''Loading'' \<in> set NOT_PLAYERS
   \<and> classify (Date 2024 3 5) ''[14:22:01] [Server thread/INFO] [net.minecraft.server.dedicated.DedicatedServer]: Loading dimension data''
       = Inr None"
proof -
  let ?e = "''[14:22:01] [Server thread/INFO] [net.minecraft.server.dedicated.DedicatedServer]: Loading dimension data''"
  have j: "match JOIN_FORMAT ?e = None" by code_simp
  have l: "match LEAVE_FORMAT ?e = None" by code_simp
  have a: "match ADVANCEMENT_FORMAT ?e = None" by code_simp
  have x: "match DEATH_FORMAT ?e = Some [(''cause'', ''dimension data''), (''player'', ''Loading''), (''time'', ''14:22:01'')]"
    by code_simp
  have n: "''Loading'' \<in> set NOT_PLAYERS" by code_simp
  then have n': "group [(''cause'', ''dimension data''), (''player'', ''Loading''), (''time'', ''14:22:01'')] ''player''
      \<in> set NOT_PLAYERS" by (simp add: group_def)
  from denylisted_entry_dropped [OF j l a x n', of "Date 2024 3 5"] j l a x n
  show ?thesis by simp
qed

text \<open>
  The claim as written fails on a line that an earlier pattern matches: the death pattern
  captures the denylisted token \<^verbatim>\<open>You\<close> of \<^verbatim>\<open>You joined the game\<close>, but the join pattern is
  tried first and gives a join event.
\<close>

theorem denylist_counterexample:
  "match DEATH_FORMAT ''[14:22:01] [Server thread/INFO] [net.minecraft.server.dedicated.DedicatedServer]: You joined the game''
       = Some [(''cause'', ''joined the game''), (''player'', ''You''), (''time'', ''14:22:01'')]
   \<and> ''You'' \<in> set NOT_PLAYERS
   \<and> classify (Date 2024 3 5) ''[14:22:01] [Server thread/INFO] [net.minecraft.server.dedicated.DedicatedServer]: You joined the game''
       = Inr (Some (PlayerJoinLeave (Datetime (Date 2024 3 5) (Time 14 22 1)) ''You'' ''join''))"
  by code_simp

section \<open>Chat lines and the death pattern\<close>

text \<open>
  C5. The chat-message pattern and the generic death pattern exclude each other: for
  every string, if the chat-message pattern matches it, the death pattern does not, so
  classification never makes a death event of such a line, although the death pattern is
  tried first. After the common beginning the one needs \<^verbatim>\<open><\<close> and the other a word
  character.
\<close>

theorem chat_is_not_death:
  assumes "match MESSAGE_FORMAT s \<noteq> None"
  shows "match DEATH_FORMAT s = None \<and> (\<forall>d t p c. classify d s \<noteq> Inr (Some (PlayerDeath t p c)))"
proof -
  from assms have "run MESSAGE_FORMAT ([], s) \<noteq> []"
    by (auto simp: match_def split: list.splits)
  from run_MESSAGE [OF this] have lt: "take 1 (drop 82 s) = ''<''" by simp
  then obtain t where "drop 82 s = CHR ''<'' # t" by (cases "drop 82 s") auto
  then have "takeWhile is_word (drop 82 s) = []" by simp
  with run_DEATH_needs_word [of "[]" s] have "run DEATH_FORMAT ([], s) = []" by blast
  then have none: "match DEATH_FORMAT s = None" by (simp add: match_def)
  then have "classify d s \<noteq> Inr (Some (PlayerDeath t p c))" for d t p c
    by (simp add: classify_def split: option.split sum.split)
  with none show ?thesis by blast
qed

theorem chat_is_not_death_witness:
  "match MESSAGE_FORMAT ''[14:22:01] [Server thread/INFO] [net.minecraft.server.dedicated.DedicatedServer]: <Steve> hello world''
     = Some [(''message'', ''hello world''), (''player'', ''Steve''), (''time'', ''14:22:01'')]
   \<and> match DEATH_FORMAT ''[14:22:01] [Server thread/INFO] [net.minecraft.server.dedicated.DedicatedServer]: <Steve> hello world'' = None"
proof -
  have m: "match MESSAGE_FORMAT ''[14:22:01] [Server thread/INFO] [net.minecraft.server.dedicated.DedicatedServer]: <Steve> hello world''
     = Some [(''message'', ''hello world''), (''player'', ''Steve''), (''time'', ''14:22:01'')]"
    by code_simp
  then have "match MESSAGE_FORMAT ''[14:22:01] [Server thread/INFO] [net.minecraft.server.dedicated.DedicatedServer]: <Steve> hello world'' \<noteq> None"
    by simp
  from chat_is_not_death [OF this] m show ?thesis by simp
qed

section \<open>Join entries\<close>



section \<open>The order of the events of two sources\<close>

text \<open>
  C7. Let two names of the listing match the file-name pattern, with dates \<open>d1\<close> before
  \<open>d2\<close>. The file names are sorted as strings, and for names of this pattern the order of
  the strings follows the order of the dates, so the earlier source is processed before
  the later one; and in every run, also one that an exception ends, the event stream is
  the events of the first \<open>k\<close> sources, source after source in that order. Hence all the
  events of the earlier source come before all the events of the later one, however many
  entries each has; for a run that ends without an exception the stream is some events,
  then those of the earlier source, then some events, then those of the later one, then
  the rest.
\<close>

theorem sources_in_date_order:
  assumes "main w st = (r, evs, st')"
    and "os_listdir w (LOG_DIRECTORY w) = Inr names"
    and "f1 \<in> set names" and "f2 \<in> set names"
    and "fullmatch LOG_FILENAME_FORMAT f1 = Some m1"
    and "fullmatch LOG_FILENAME_FORMAT f2 = Some m2"
    and "date_fromisoformat (group m1 ''date'') = Inr d1"
    and "date_fromisoformat (group m2 ''date'') = Inr d2"
    and "date_less d1 d2"
  shows "(\<exists>A B C k. log_files names = A @ f1 # B @ f2 # C
            \<and> evs = concat (map (source_events w) (take k (log_files names))))
       \<and> (r = None \<longrightarrow>
            (\<exists>pre mid post. evs = pre @ source_events w f1 @ mid @ source_events w f2 @ post))"
proof -
  have "f1 < f2" using assms(5-9) by (rule filename_order)
  moreover have "sorted (log_files names)" by (simp add: log_files_def)
  moreover have "f1 \<in> set (log_files names)" "f2 \<in> set (log_files names)"
    using assms(3-6) by (simp_all add: log_files_def)
  ultimately obtain A B C where s: "log_files names = A @ f1 # B @ f2 # C"
    using sorted_split by blast
  have p: "process w (log_files names) ([], st) = (r, evs, st')"
    using assms(1,2) by (simp add: main_def)
  from process_prefix [OF p] obtain k
    where "evs = concat (map (source_events w) (take k (log_files names)))" by auto
  with s have first: "\<exists>A B C k. log_files names = A @ f1 # B @ f2 # C
            \<and> evs = concat (map (source_events w) (take k (log_files names)))" by blast
  have "\<exists>pre mid post. evs = pre @ source_events w f1 @ mid @ source_events w f2 @ post"
    if "r = None"
  proof -
    from p that have "process w (log_files names) ([], st) = (None, evs, st')" by simp
    from process_success [OF this]
    have "evs = concat (map (source_events w) A) @ source_events w f1
            @ concat (map (source_events w) B) @ source_events w f2
            @ concat (map (source_events w) C)"
      by (simp add: s)
    then show ?thesis by blast
  qed
  with first show ?thesis by blast
qed

theorem sources_in_date_order_witness:
  "fst (main two_days \<lparr>output_dir = False, files = Map.empty\<rparr>) = None
   \<and> fst (snd (main two_days \<lparr>output_dir = False, files = Map.empty\<rparr>))
       = [PlayerJoinLeave (Datetime (Date 2024 1 1) (Time 23 59 59)) ''Steve'' ''join'',
          PlayerJoinLeave (Datetime (Date 2024 1 2) (Time 0 0 1)) ''Steve'' ''leave'']
   \<and> source_events two_days ''2024-01-01-1.log.gz''
       = [PlayerJoinLeave (Datetime (Date 2024 1 1) (Time 23 59 59)) ''Steve'' ''join'']
   \<and> source_events two_days ''2024-01-02-1.log.gz''
       = [PlayerJoinLeave (Datetime (Date 2024 1 2) (Time 0 0 1)) ''Steve'' ''leave'']
   \<and> date_less (Date 2024 1 1) (Date 2024 1 2)
   \<and> (\<exists>pre mid post. fst (snd (main two_days \<lparr>output_dir = False, files = Map.empty\<rparr>))
          = pre @ source_events two_days ''2024-01-01-1.log.gz'' @ mid
            @ source_events two_days ''2024-01-02-1.log.gz'' @ post)"
proof -
  let ?st = "\<lparr>output_dir = False, files = Map.empty\<rparr>"
  let ?names = "[''2024-01-02-1.log.gz'', ''notes.txt'', ''2024-01-01-1.log.gz'']"
  have r: "fst (main two_days ?st) = None" by code_simp
  have e: "fst (snd (main two_days ?st))
       = [PlayerJoinLeave (Datetime (Date 2024 1 1) (Time 23 59 59)) ''Steve'' ''join'',
          PlayerJoinLeave (Datetime (Date 2024 1 2) (Time 0 0 1)) ''Steve'' ''leave'']" by code_simp
  have s1: "source_events two_days ''2024-01-01-1.log.gz''
       = [PlayerJoinLeave (Datetime (Date 2024 1 1) (Time 23 59 59)) ''Steve'' ''join'']" by code_simp
  have s2: "source_events two_days ''2024-01-02-1.log.gz''
       = [PlayerJoinLeave (Datetime (Date 2024 1 2) (Time 0 0 1)) ''Steve'' ''leave'']" by code_simp
  have m: "main two_days ?st = (None, fst (snd (main two_days ?st)), snd (snd (main two_days ?st)))"
    using r by (metis prod.collapse)
  have l: "os_listdir two_days (LOG_DIRECTORY two_days) = Inr ?names"
    by (simp add: os_listdir_def two_days_def)
  have n: "''2024-01-01-1.log.gz'' \<in> set ?names" "''2024-01-02-1.log.gz'' \<in> set ?names" by simp_all
  have f1: "fullmatch LOG_FILENAME_FORMAT ''2024-01-01-1.log.gz'' = Some [(''date'', ''2024-01-01'')]"
    by code_simp
  have f2: "fullmatch LOG_FILENAME_FORMAT ''2024-01-02-1.log.gz'' = Some [(''date'', ''2024-01-02'')]"
    by code_simp
  have d1: "date_fromisoformat (group [(''date'', ''2024-01-01'')] ''date'') = Inr (Date 2024 1 1)"
    by code_simp
  have d2: "date_fromisoformat (group [(''date'', ''2024-01-02'')] ''date'') = Inr (Date 2024 1 2)"
    by code_simp
  have lt: "date_less (Date 2024 1 1) (Date 2024 1 2)" by simp
  from sources_in_date_order [OF m l n f1 f2 d1 d2 lt] r e s1 s2 lt
  show ?thesis by (simp only: simp_thms)
qed

section \<open>The export\<close>

text \<open>
  C8. Exporting is idempotent: for every event stream and every state of the output
  directory and its files, exporting the stream a second time leaves every file with the
  very text the first export gave it. Each file is opened for writing, not appending, so
  what it held before has no part in what it holds after.
\<close>

theorem export_idempotent: "export event_stream (export event_stream st) = export event_stream st"
  by (simp add: export_def CSV_FILES_def write_csv_def fun_upd_twist)

section \<open>A directory without log files\<close>

text \<open>
  C10. If the listing of the input directory holds no name that the file-name pattern
  matches in full, the run ends without an exception, with no event, and with the output
  directory and every file as they were: nothing is created and nothing is overwritten,
  because the export is inside the loop over the log files.
\<close>

theorem no_log_files_no_output:
  assumes "os_listdir w (LOG_DIRECTORY w) = Inr names"
      and "\<forall>f \<in> set names. fullmatch LOG_FILENAME_FORMAT f = None"
    shows "main w st = (None, [], st)"
proof -
  have "filter (\<lambda>x. fullmatch LOG_FILENAME_FORMAT x \<noteq> None) names = []"
    using assms(2) by (simp add: filter_empty_conv)
  then have "log_files names = []" by (simp add: log_files_def)
  then show ?thesis using assms(1) by (simp add: main_def)
qed

theorem no_log_files_no_output_witness:
  "os_listdir \<lparr>LOG_DIRECTORY = Some ''logs'',
        listdir = (\<lambda>p. Inr [''latest.log'', ''2024-01-01.log.gz'']),
        gzip_text = (\<lambda>p. Inl OSError)\<rparr> (Some ''logs'') = Inr [''latest.log'', ''2024-01-01.log.gz'']
   \<and> fullmatch LOG_FILENAME_FORMAT ''latest.log'' = None
   \<and> fullmatch LOG_FILENAME_FORMAT ''2024-01-01.log.gz'' = None
   \<and> main \<lparr>LOG_DIRECTORY = Some ''logs'',
        listdir = (\<lambda>p. Inr [''latest.log'', ''2024-01-01.log.gz'']),
        gzip_text = (\<lambda>p. Inl OSError)\<rparr>
        \<lparr>output_dir = False, files = Map.empty\<rparr>
      = (None, [], \<lparr>output_dir = False, files = Map.empty\<rparr>)"
proof -
  let ?w = "\<lparr>LOG_DIRECTORY = Some ''logs'',
        listdir = (\<lambda>p. Inr [''latest.log'', ''2024-01-01.log.gz'']),
        gzip_text = (\<lambda>p. Inl OSError)\<rparr>"
  have a: "os_listdir ?w (LOG_DIRECTORY ?w) = Inr [''latest.log'', ''2024-01-01.log.gz'']"
    by (simp add: os_listdir_def)
  have b: "\<forall>f \<in> set [''latest.log'', ''2024-01-01.log.gz'']. fullmatch LOG_FILENAME_FORMAT f = None"
    by code_simp
  have c: "fullmatch LOG_FILENAME_FORMAT ''latest.log'' = None"
         "fullmatch LOG_FILENAME_FORMAT ''2024-01-01.log.gz'' = None"
    using b by simp_all
  show ?thesis using a c no_log_files_no_output [OF a b] by simp
qed


section \<open>The input directory setting\<close>

text \<open>
  With the variable unset every path joined with a file name raises, before the file is
  read: a run over a non-empty list of log files ends with an exception at its first file,
  with the event stream and the output as they were.
\<close>

lemma process_unset:
  assumes "LOG_DIRECTORY w = None" and "names \<noteq> []"
  shows "\<exists>e. process w names (evs, st) = (Some e, evs, st)"
proof (cases names)
  case Nil
  then show ?thesis using assms(2) by simp
next
  case (Cons f rest)
  then show ?thesis using assms(1)
    by (simp add: os_path_join_def split: option.split sum.split)
qed

lemma log_files_empty:
  "log_files names = [] \<longleftrightarrow> (\<forall>f \<in> set names. fullmatch LOG_FILENAME_FORMAT f = None)"
proof -
  have "log_files names = [] \<longleftrightarrow> set (log_files names) = {}" by simp
  also have "\<dots> \<longleftrightarrow> (\<forall>f \<in> set names. fullmatch LOG_FILENAME_FORMAT f = None)"
    unfolding log_files_def by auto
  finally show ?thesis .
qed

text \<open>
  C3, as the code has it. If the setting names a directory that \<^verbatim>\<open>os.listdir\<close> cannot
  list, the run ends at once with that exception, no event and the output untouched. If
  the setting is unset, \<^verbatim>\<open>os.listdir(None)\<close> lists the current directory instead: the
  run still produces no event and no output, but it ends with an exception only if that
  listing fails or holds a name the file-name pattern matches in full; otherwise it ends
  normally.
\<close>

theorem config_error:
  "(LOG_DIRECTORY w = Some d \<and> listdir w d = Inl e \<longrightarrow> main w st = (Some e, [], st))
   \<and> (LOG_DIRECTORY w = None \<longrightarrow>
        (\<exists>r. main w st = (r, [], st)
           \<and> (r = None \<longleftrightarrow> (\<exists>names. listdir w ''.'' = Inr names
                  \<and> (\<forall>f \<in> set names. fullmatch LOG_FILENAME_FORMAT f = None)))))"
proof (intro conjI impI)
  assume "LOG_DIRECTORY w = Some d \<and> listdir w d = Inl e"
  then show "main w st = (Some e, [], st)"
    by (simp add: main_def os_listdir_def)
next
  assume unset: "LOG_DIRECTORY w = None"
  show "\<exists>r. main w st = (r, [], st)
           \<and> (r = None \<longleftrightarrow> (\<exists>names. listdir w ''.'' = Inr names
                  \<and> (\<forall>f \<in> set names. fullmatch LOG_FILENAME_FORMAT f = None)))"
  proof (cases "listdir w ''.''")
    case (Inl e)
    then show ?thesis using unset by (simp add: main_def os_listdir_def)
  next
    case (Inr names)
    show ?thesis
    proof (cases "log_files names = []")
      case True
      then have "main w st = (None, [], st)"
        using unset Inr by (simp add: main_def os_listdir_def)
      then show ?thesis using True Inr by (simp add: log_files_empty)
    next
      case False
      from process_unset [OF unset False]
      obtain e where "process w (log_files names) ([], st) = (Some e, [], st)" by blast
      then have "main w st = (Some e, [], st)"
        using unset Inr by (simp add: main_def os_listdir_def)
      then show ?thesis using False Inr by (simp add: log_files_empty)
    qed
  qed
qed

theorem config_error_witness:
  "main \<lparr>LOG_DIRECTORY = Some ''logs'', listdir = (\<lambda>p. Inl OSError), gzip_text = (\<lambda>p. Inl OSError)\<rparr>
        \<lparr>output_dir = False, files = Map.empty\<rparr>
     = (Some OSError, [], \<lparr>output_dir = False, files = Map.empty\<rparr>)
   \<and> main \<lparr>LOG_DIRECTORY = None, listdir = (\<lambda>p. Inr [''2024-01-01-1.log.gz'']), gzip_text = (\<lambda>p. Inr [])\<rparr>
        \<lparr>output_dir = False, files = Map.empty\<rparr>
     = (Some TypeError, [], \<lparr>output_dir = False, files = Map.empty\<rparr>)"
proof -
  have "fullmatch LOG_FILENAME_FORMAT ''2024-01-01-1.log.gz'' = Some [(''date'', ''2024-01-01'')]"
    by code_simp
  moreover have "date_fromisoformat ''2024-01-01'' = Inr (Date 2024 1 1)"
    by code_simp
  ultimately have "main \<lparr>LOG_DIRECTORY = None, listdir = (\<lambda>p. Inr [''2024-01-01-1.log.gz'']), gzip_text = (\<lambda>p. Inr [])\<rparr>
        \<lparr>output_dir = False, files = Map.empty\<rparr>
     = (Some TypeError, [], \<lparr>output_dir = False, files = Map.empty\<rparr>)"
    by (simp add: main_def os_listdir_def log_files_def os_path_join_def group_def)
  then show ?thesis
    using config_error [of "\<lparr>LOG_DIRECTORY = Some ''logs'', listdir = (\<lambda>p. Inl OSError), gzip_text = (\<lambda>p. Inl OSError)\<rparr>"
        "''logs''" OSError "\<lparr>output_dir = False, files = Map.empty\<rparr>"]
    by simp
qed

text \<open>
  The claim as written fails when the setting is unset and the current directory holds no
  log file: the run ends normally, not with a fatal error.
\<close>

theorem unset_directory_counterexample:
  "LOG_DIRECTORY \<lparr>LOG_DIRECTORY = None, listdir = (\<lambda>p. Inr [''notes.txt'']), gzip_text = (\<lambda>p. Inl OSError)\<rparr> = None
   \<and> main \<lparr>LOG_DIRECTORY = None, listdir = (\<lambda>p. Inr [''notes.txt'']), gzip_text = (\<lambda>p. Inl OSError)\<rparr>
        \<lparr>output_dir = False, files = Map.empty\<rparr>
     = (None, [], \<lparr>output_dir = False, files = Map.empty\<rparr>)"
proof -
  have "fullmatch LOG_FILENAME_FORMAT ''notes.txt'' = None" by code_simp
  then show ?thesis by (simp add: main_def os_listdir_def log_files_def)
qed

section \<open>The first line of a file\<close>

text \<open>
  C9. The first entry of a file is dropped. Let the text begin with a line \<open>first\<close> that
  begins with the marker, followed by nothing or by a newline and the rest. Then the
  entries of the text are those of the rest alone, although the same line after a newline
  is an entry; so the events collected from the text are those of the rest, and a
  classifiable line at the very start of a file never gives an event.
\<close>

theorem first_entry_dropped:
  assumes "marker_ok first" and "NL \<notin> set first" and "rest = [] \<or> hd rest = NL"
  shows "findall LOG_ENTRY_FORMAT (first @ rest) = findall LOG_ENTRY_FORMAT rest
       \<and> findall LOG_ENTRY_FORMAT (NL # first @ rest) = first # findall LOG_ENTRY_FORMAT rest
       \<and> collect d (findall LOG_ENTRY_FORMAT (first @ rest)) evs
           = collect d (findall LOG_ENTRY_FORMAT rest) evs"
proof -
  have a: "findall LOG_ENTRY_FORMAT (first @ rest) = findall LOG_ENTRY_FORMAT rest"
    using assms(2) by (rule findall_first_line)
  have all: "\<And>x. x \<in> set first \<Longrightarrow> x \<noteq> NL" using assms(2) by auto
  have stop: "takeWhile (\<lambda>c. c \<noteq> NL) rest = []" "dropWhile (\<lambda>c. c \<noteq> NL) rest = rest"
    using assms(3) by (cases rest; auto)+
  have t: "takeWhile (\<lambda>c. c \<noteq> NL) (first @ rest) = first"
    by (simp only: takeWhile_append2 [OF all] stop append_Nil2)
  have d: "dropWhile (\<lambda>c. c \<noteq> NL) (first @ rest) = rest"
    by (simp only: dropWhile_append2 [OF all] stop)
  have "marker_ok (first @ rest)" using assms(1) by (rule marker_ok_extend)
  from findall_marker [OF this]
  have b: "findall LOG_ENTRY_FORMAT (NL # first @ rest) = first # findall LOG_ENTRY_FORMAT rest"
    by (simp only: t d)
  show ?thesis using a b by simp
qed

theorem first_entry_dropped_witness:
  "marker_ok ''[14:22:01] [Server thread/INFO] [net.minecraft.server.dedicated.DedicatedServer]: Steve joined the game''
   \<and> findall LOG_ENTRY_FORMAT
        (''[14:22:01] [Server thread/INFO] [net.minecraft.server.dedicated.DedicatedServer]: Steve joined the game''
          @ [NL] @ ''[14:22:05] [Server thread/INFO] [net.minecraft.server.dedicated.DedicatedServer]: Steve left the game'')
      = [''[14:22:05] [Server thread/INFO] [net.minecraft.server.dedicated.DedicatedServer]: Steve left the game'']
   \<and> collect (Date 2024 3 5) (findall LOG_ENTRY_FORMAT
        (''[14:22:01] [Server thread/INFO] [net.minecraft.server.dedicated.DedicatedServer]: Steve joined the game''
          @ [NL] @ ''[14:22:05] [Server thread/INFO] [net.minecraft.server.dedicated.DedicatedServer]: Steve left the game'')) []
      = (None, [PlayerJoinLeave (Datetime (Date 2024 3 5) (Time 14 22 5)) ''Steve'' ''leave''])"
proof -
  let ?first = "''[14:22:01] [Server thread/INFO] [net.minecraft.server.dedicated.DedicatedServer]: Steve joined the game''"
  let ?rest = "[NL] @ ''[14:22:05] [Server thread/INFO] [net.minecraft.server.dedicated.DedicatedServer]: Steve left the game''"
  have m: "marker_ok ?first" by code_simp
  have n: "NL \<notin> set ?first" by code_simp
  have r: "?rest = [] \<or> hd ?rest = NL" by simp
  have f: "findall LOG_ENTRY_FORMAT ?rest
      = [''[14:22:05] [Server thread/INFO] [net.minecraft.server.dedicated.DedicatedServer]: Steve left the game'']"
    by code_simp
  have c: "collect (Date 2024 3 5)
      [''[14:22:05] [Server thread/INFO] [net.minecraft.server.dedicated.DedicatedServer]: Steve left the game''] []
      = (None, [PlayerJoinLeave (Datetime (Date 2024 3 5) (Time 14 22 5)) ''Steve'' ''leave''])"
    by code_simp
  from first_entry_dropped [OF m n r, of "Date 2024 3 5" "[]"] m f c
  show ?thesis by (simp only:) 
qed

end
